theory Spec2Isabelle
  imports Main "HOL-Library.Sublist"
begin

section \<open>Data model (src/api/src/models.py)\<close>

text \<open>
  Python strings that are only compared, stored and concatenated (role names, party
  names, filter text) are modelled as \<open>string\<close>. The enums are closed datatypes; the
  Pydantic models are records holding the fields the access rules read.
\<close>

datatype ConfidentialityLevel = PUBLIC | PROTECTED_A | CONFIDENTIAL

datatype PartyRole = APPLICANT | INTERVENER | STAFF

record Party =
  name :: string
  role :: PartyRole
  ba_code :: "string option"

record DocumentMetadata =
  doc_id :: string
  proceeding_id :: string
  title :: string
  parties :: "Party list"
  confidentiality_level :: ConfidentialityLevel

record UserClaims =
  oid :: string
  name :: string
  email :: string
  roles :: "string list"
  party_affiliation :: "string option"
  ba_code :: "string option"

text \<open>The string value of an enum member (\<open>ConfidentialityLevel.PUBLIC.value\<close>).\<close>

fun level_value :: "ConfidentialityLevel \<Rightarrow> string" where
  "level_value PUBLIC = ''public''"
| "level_value PROTECTED_A = ''protected_a''"
| "level_value CONFIDENTIAL = ''confidential''"

text \<open>
  Python truthiness of an \<open>Optional[str]\<close>: \<open>None\<close> and the empty string are falsy.
\<close>

fun truthy :: "string option \<Rightarrow> bool" where
  "truthy None = False"
| "truthy (Some s) = (s \<noteq> [])"

section \<open>Access policy (src/api/src/auth/__init__.py)\<close>

subsection \<open>Demo users and the current user\<close>

definition DEMO_USERS :: "(string \<times> UserClaims) list" where
  "DEMO_USERS =
    [(''Hearing_Panel'',
        \<lparr>oid = ''demo-panel-001'', name = ''Commissioner Demo'', email = ''panel@aer.ca'',
         roles = [''Hearing_Panel''], party_affiliation = None, ba_code = None\<rparr>),
     (''Staff'',
        \<lparr>oid = ''demo-staff-001'', name = ''Staff Demo'', email = ''staff@example.com'',
         roles = [''Staff''], party_affiliation = None, ba_code = None\<rparr>),
     (''Intervener'',
        \<lparr>oid = ''demo-intervener-001'', name = ''Intervener Demo'',
         email = ''intervener@example.com'', roles = [''Intervener''],
         party_affiliation = Some ''Crowsnest Pass Residents Association'', ba_code = None\<rparr>),
     (''Public'',
        \<lparr>oid = ''demo-public-001'', name = ''Public User'', email = ''public@example.com'',
         roles = [], party_affiliation = None, ba_code = None\<rparr>)]"

datatype auth_error =
    KeyError string
  | HTTPException nat string string

text \<open>\<open>d[k]\<close> on a dict: a missing key raises \<open>KeyError\<close>.\<close>

definition dict_getitem :: "(string \<times> 'v) list \<Rightarrow> string \<Rightarrow> auth_error + 'v" where
  "dict_getitem d k = (case map_of d k of None \<Rightarrow> Inl (KeyError k) | Some v \<Rightarrow> Inr v)"

text \<open>\<open>r and r in DEMO_USERS\<close> for an optional string \<open>r\<close>.\<close>

definition is_demo_role :: "string option \<Rightarrow> bool" where
  "is_demo_role r = (case r of None \<Rightarrow> False | Some s \<Rightarrow> s \<noteq> [] \<and> s \<in> set (map fst DEMO_USERS))"

text \<open>
  \<open>get_current_user\<close>. The request is represented by what the function reads of it: the
  claims a middleware may have attached to \<open>request.state\<close>, the bearer credentials, and
  the \<open>X-Demo-Role\<close> header; \<open>environ\<close> is \<open>os.environ\<close>.
\<close>

definition get_current_user ::
  "UserClaims option \<Rightarrow> (string \<Rightarrow> string option) \<Rightarrow> 'cred option \<Rightarrow> string option
     \<Rightarrow> auth_error + UserClaims" where
  "get_current_user state_user_claims environ credentials x_demo_role =
    (if is_demo_role x_demo_role then dict_getitem DEMO_USERS (the x_demo_role)
     else let env_demo_role = environ ''DEMO_ROLE'' in
       if is_demo_role env_demo_role then dict_getitem DEMO_USERS (the env_demo_role)
       else case state_user_claims of
         Some claims \<Rightarrow> Inr claims
       | None \<Rightarrow>
           if (case environ ''ENVIRONMENT'' of None \<Rightarrow> ''development'' | Some v \<Rightarrow> v)
                = ''development''
           then dict_getitem DEMO_USERS ''AER_Staff''
           else case credentials of
             None \<Rightarrow> Inl (HTTPException 401 ''AUTH_001'' ''Authentication required'')
           | Some _ \<Rightarrow> dict_getitem DEMO_USERS ''AER_Staff'')"

subsection \<open>The single-document check\<close>

definition can_access_document :: "UserClaims \<Rightarrow> DocumentMetadata \<Rightarrow> bool" where
  "can_access_document user_claims document =
    (let level = confidentiality_level document in
     if level = PUBLIC then True
     else if level = PROTECTED_A then
       (if ''Staff'' \<in> set (roles user_claims) \<or> ''Hearing_Panel'' \<in> set (roles user_claims)
        then True
        else case party_affiliation user_claims of
          None \<Rightarrow> False
        | Some aff \<Rightarrow>
            if aff \<noteq> [] then
              (let party_names = map Party.name (parties document)
               in if aff \<in> set party_names then True else False)
            else False)
     else if level = CONFIDENTIAL then ''Hearing_Panel'' \<in> set (roles user_claims)
     else False)"

subsection \<open>The bulk-query filter\<close>

text \<open>\<open>sep.join(xs)\<close>.\<close>

fun join :: "'a list \<Rightarrow> 'a list list \<Rightarrow> 'a list" where
  "join sep [] = []"
| "join sep [x] = x"
| "join sep (x # y # ys) = x @ sep @ join sep (y # ys)"

text \<open>
  \<open>build_search_filter\<close> as the source writes it: a list of OData clauses, as text,
  joined by \<open>and\<close>; \<open>None\<close> when the list is empty.
\<close>

definition build_search_filter :: "UserClaims \<Rightarrow> string option" where
  "build_search_filter user_claims =
    (let filters = [];
         filters =
           (if ''Hearing_Panel'' \<notin> set (roles user_claims)
            then filters @ [''confidentialityLevel ne 'confidential'' @ [CHR 0x27]]
            else filters);
         filters =
           (if ''Staff'' \<notin> set (roles user_claims) \<and> ''Hearing_Panel'' \<notin> set (roles user_claims)
            then
              (if truthy (party_affiliation user_claims) then
                 (let party_filter =
                        ''(confidentialityLevel eq 'public' or '' @
                        ''parties/any(p: p eq '' @ [CHR 0x27] @
                        the (party_affiliation user_claims) @ [CHR 0x27] @ ''))''
                  in filters @ [party_filter])
               else filters @ [''confidentialityLevel eq 'public'' @ [CHR 0x27]])
            else filters)
     in if filters \<noteq> [] then Some (join '' and '' filters) else None)"

text \<open>
  The predicate the filter text denotes. The source only builds text; its meaning is
  given here on a small expression type, one constructor per form of clause the source
  emits, with \<open>render_expr\<close> producing exactly the source's text for each. The fields a
  filter is evaluated against are those the ingestion writes to the index for a
  document: the level's string value and the list of party names.
\<close>

datatype filter_expr =
    LevelEq string
  | LevelNe string
  | PartiesAny string
  | Or filter_expr filter_expr

fun render_expr :: "filter_expr \<Rightarrow> string" where
  "render_expr (LevelEq v) = ''confidentialityLevel eq '' @ [CHR 0x27] @ v @ [CHR 0x27]"
| "render_expr (LevelNe v) = ''confidentialityLevel ne '' @ [CHR 0x27] @ v @ [CHR 0x27]"
| "render_expr (PartiesAny v) = ''parties/any(p: p eq '' @ [CHR 0x27] @ v @ [CHR 0x27] @ '')''"
| "render_expr (Or a b) = ''('' @ render_expr a @ '' or '' @ render_expr b @ '')''"

definition render_filter :: "filter_expr list option \<Rightarrow> string option" where
  "render_filter f = map_option (\<lambda>es. join '' and '' (map render_expr es)) f"

fun eval_expr :: "filter_expr \<Rightarrow> string \<Rightarrow> string list \<Rightarrow> bool" where
  "eval_expr (LevelEq v) lvl ps = (lvl = v)"
| "eval_expr (LevelNe v) lvl ps = (lvl \<noteq> v)"
| "eval_expr (PartiesAny v) lvl ps = (v \<in> set ps)"
| "eval_expr (Or a b) lvl ps = (eval_expr a lvl ps \<or> eval_expr b lvl ps)"

fun eval_all :: "filter_expr list \<Rightarrow> string \<Rightarrow> string list \<Rightarrow> bool" where
  "eval_all [] lvl ps = True"
| "eval_all (e # es) lvl ps = (eval_expr e lvl ps \<and> eval_all es lvl ps)"

text \<open>An absent filter restricts nothing.\<close>

fun eval_filter :: "filter_expr list option \<Rightarrow> DocumentMetadata \<Rightarrow> bool" where
  "eval_filter None document = True"
| "eval_filter (Some es) document =
     eval_all es (level_value (confidentiality_level document))
       (map Party.name (parties document))"

text \<open>
  The clauses of \<open>build_search_filter\<close>, branch for branch, as expressions.
\<close>

definition search_filter_predicate :: "UserClaims \<Rightarrow> filter_expr list option" where
  "search_filter_predicate user_claims =
    (let filters = [];
         filters =
           (if ''Hearing_Panel'' \<notin> set (roles user_claims)
            then filters @ [LevelNe ''confidential'']
            else filters);
         filters =
           (if ''Staff'' \<notin> set (roles user_claims) \<and> ''Hearing_Panel'' \<notin> set (roles user_claims)
            then
              (if truthy (party_affiliation user_claims) then
                 filters @ [Or (LevelEq ''public'')
                               (PartiesAny (the (party_affiliation user_claims)))]
               else filters @ [LevelEq ''public''])
            else filters)
     in if filters \<noteq> [] then Some filters else None)"

section \<open>Text (Python \<open>str\<close>)\<close>

text \<open>
  Where the code measures, slices or scans a string, a Python \<open>str\<close> is modelled as
  the list of its code points, so that \<open>len\<close> and indexing count what Python counts.
  \<open>ustr\<close> turns a literal into such a list.
\<close>

type_synonym ustr = "nat list"

definition ustr :: "string \<Rightarrow> ustr" where
  "ustr s = map of_char s"

text \<open>
  \<open>str.isspace\<close> on one code point, which is also the class \<open>\s\<close> of \<open>re\<close> on a
  \<open>str\<close> pattern: the ASCII controls 9 to 13 and 28 to 31, the space, and the Unicode
  separators.
\<close>

definition is_space :: "nat \<Rightarrow> bool" where
  "is_space c = ((9 \<le> c \<and> c \<le> 13) \<or> (28 \<le> c \<and> c \<le> 32) \<or> c = 133 \<or> c = 160
      \<or> c = 5760 \<or> (8192 \<le> c \<and> c \<le> 8202) \<or> c = 8232 \<or> c = 8233 \<or> c = 8239
      \<or> c = 8287 \<or> c = 12288)"

text \<open>\<open>s.strip()\<close>.\<close>

definition strip :: "ustr \<Rightarrow> ustr" where
  "strip s = rev (dropWhile is_space (rev (dropWhile is_space s)))"

text \<open>\<open>s[:n]\<close>: a negative \<open>n\<close> counts from the end.\<close>

definition slice_to :: "'a list \<Rightarrow> int \<Rightarrow> 'a list" where
  "slice_to s n = (if 0 \<le> n then take (nat n) s else take (length s - nat (- n)) s)"

text \<open>\<open>s.rfind(sub)\<close>: the highest index at which \<open>sub\<close> occurs in \<open>s\<close>, or \<open>-1\<close>.\<close>

definition occurs_at :: "'a list \<Rightarrow> 'a list \<Rightarrow> nat \<Rightarrow> bool" where
  "occurs_at sub s i = (i + length sub \<le> length s \<and> take (length sub) (drop i s) = sub)"

definition rfind :: "'a list \<Rightarrow> 'a list \<Rightarrow> int" where
  "rfind s sub =
     (case filter (occurs_at sub s) (rev [0..<Suc (length s)]) of
        [] \<Rightarrow> - 1
      | i # _ \<Rightarrow> int i)"

text \<open>Used in statements only: \<open>p\<close> is the last place where \<open>sub\<close> occurs in \<open>s\<close>.\<close>

definition is_last_occurrence :: "'a list \<Rightarrow> 'a list \<Rightarrow> nat \<Rightarrow> bool" where
  "is_last_occurrence sub s p = (occurs_at sub s p \<and> (\<forall>j. p < j \<longrightarrow> \<not> occurs_at sub s j))"

section \<open>Snippets (src/api/src/search/service.py)\<close>

definition highlight_snippet :: "ustr \<Rightarrow> int \<Rightarrow> ustr" where
  "highlight_snippet content0 max_length =
    (let content = strip content0 in
     if int (length content) \<le> max_length then content
     else
       let truncated = slice_to content max_length;
           last_period = rfind truncated (ustr ''. '')
       in if last_period > max_length div 2 then slice_to truncated (last_period + 1)
          else
            let last_space = rfind truncated (ustr '' '')
            in if last_space > 0 then slice_to truncated last_space @ ustr ''...''
               else truncated @ ustr ''...'')"

section \<open>Regular expressions (the fragment of \<open>re\<close> the ingestion uses)\<close>

text \<open>
  The patterns of the source are sequences of single-character items: a character or a
  class, taken once, optionally (\<open>?\<close>), any number of times (\<open>*\<close>) or at least once
  (\<open>+\<close>), and a one-character look-behind. \<open>match_here\<close> is the backtracking matcher
  of \<open>re\<close> on this fragment: quantifiers are greedy and give back one character at a
  time; the result is what remains of the text after the first match found. With
  \<open>IGNORECASE\<close> a literal matches either case of an ASCII letter; \<open>\d\<close> is taken on the
  ASCII digits. The case pairs and decimal digits beyond ASCII are not modelled.
\<close>

datatype atom = Chr nat | Space | Digit | Alt atom atom

datatype item = One atom | Opt atom | Star atom | Plus atom | Behind atom

type_synonym regex = "item list"

definition lower :: "nat \<Rightarrow> nat" where
  "lower c = (if 65 \<le> c \<and> c \<le> 90 then c + 32 else c)"

fun atom_matches :: "bool \<Rightarrow> atom \<Rightarrow> nat \<Rightarrow> bool" where
  "atom_matches ic (Chr k) c = (if ic then lower c = lower k else c = k)"
| "atom_matches ic Space c = is_space c"
| "atom_matches ic Digit c = (48 \<le> c \<and> c \<le> 57)"
| "atom_matches ic (Alt a b) c = (atom_matches ic a c \<or> atom_matches ic b c)"

function match_here :: "bool \<Rightarrow> regex \<Rightarrow> nat option \<Rightarrow> ustr \<Rightarrow> ustr option" where
  "match_here ic [] prev s = Some s"
| "match_here ic (One a # r) prev [] = None"
| "match_here ic (One a # r) prev (c # cs) =
     (if atom_matches ic a c then match_here ic r (Some c) cs else None)"
| "match_here ic (Opt a # r) prev [] = match_here ic r prev []"
| "match_here ic (Opt a # r) prev (c # cs) =
     (if atom_matches ic a c then
        (case match_here ic r (Some c) cs of
           Some rest \<Rightarrow> Some rest
         | None \<Rightarrow> match_here ic r prev (c # cs))
      else match_here ic r prev (c # cs))"
| "match_here ic (Star a # r) prev [] = match_here ic r prev []"
| "match_here ic (Star a # r) prev (c # cs) =
     (if atom_matches ic a c then
        (case match_here ic (Star a # r) (Some c) cs of
           Some rest \<Rightarrow> Some rest
         | None \<Rightarrow> match_here ic r prev (c # cs))
      else match_here ic r prev (c # cs))"
| "match_here ic (Plus a # r) prev [] = None"
| "match_here ic (Plus a # r) prev (c # cs) =
     (if atom_matches ic a c then match_here ic (Star a # r) (Some c) cs else None)"
| "match_here ic (Behind a # r) prev s =
     (case prev of
        None \<Rightarrow> None
      | Some p \<Rightarrow> if atom_matches ic a p then match_here ic r prev s else None)"
  by pat_completeness auto
termination
  by (relation "measures [\<lambda>(ic, r, prev, s). length s, \<lambda>(ic, r, prev, s). length r]") auto

text \<open>
  \<open>re.findall\<close> and \<open>re.split\<close> scan the text from the left; after a match the scan
  resumes where the match ended. The counter is the number of characters of the current
  match still to pass. Every pattern of the source consumes at least one character, so
  empty matches do not arise; \<open>prev\<close> is the character before the position, which the
  look-behind reads.
\<close>

fun findall_from :: "bool \<Rightarrow> regex \<Rightarrow> nat option \<Rightarrow> ustr \<Rightarrow> nat \<Rightarrow> ustr list" where
  "findall_from ic r prev [] k = []"
| "findall_from ic r prev (c # cs) (Suc k) = findall_from ic r (Some c) cs k"
| "findall_from ic r prev (c # cs) 0 =
     (case match_here ic r prev (c # cs) of
        None \<Rightarrow> findall_from ic r (Some c) cs 0
      | Some rest \<Rightarrow>
          (let n = length (c # cs) - length rest
           in take n (c # cs) # findall_from ic r (Some c) cs (n - 1)))"

definition findall :: "bool \<Rightarrow> regex \<Rightarrow> ustr \<Rightarrow> ustr list" where
  "findall ic r text = findall_from ic r None text 0"

fun split_from :: "regex \<Rightarrow> nat option \<Rightarrow> ustr \<Rightarrow> nat \<Rightarrow> ustr \<Rightarrow> ustr list" where
  "split_from r prev [] k cur = [cur]"
| "split_from r prev (c # cs) (Suc k) cur = split_from r (Some c) cs k cur"
| "split_from r prev (c # cs) 0 cur =
     (case match_here False r prev (c # cs) of
        None \<Rightarrow> split_from r (Some c) cs 0 (cur @ [c])
      | Some rest \<Rightarrow>
          (let n = length (c # cs) - length rest
           in if n = 0 then split_from r (Some c) cs 0 (cur @ [c])
              else cur # split_from r (Some c) cs (n - 1) []))"

definition re_split :: "regex \<Rightarrow> ustr \<Rightarrow> ustr list" where
  "re_split r text = split_from r None text 0 []"

text \<open>A literal word of a pattern.\<close>

definition lit :: "string \<Rightarrow> regex" where
  "lit w = map (\<lambda>c. One (Chr (of_char c))) w"

section \<open>Citations and paragraph markers (src/scripts/ingest-documents.py)\<close>

text \<open>
  \<open>extract_paragraph_numbers\<close>: \<open>re.findall(r'\[(\d+)\]', text)\<close> returns the group, which
  is the match without its two brackets.
\<close>

definition extract_paragraph_numbers :: "ustr \<Rightarrow> ustr list" where
  "extract_paragraph_numbers text =
     map (\<lambda>m. butlast (tl m)) (findall False [One (Chr 91), Plus Digit, One (Chr 93)] text)"

text \<open>The tail \<open>\s+s\.?\s*\d+\<close> shared by the legislation patterns.\<close>

definition section_tail :: regex where
  "section_tail = [Plus Space, One (Chr 115), Opt (Chr 46), Star Space, Plus Digit]"

definition legislation_patterns :: "regex list" where
  "legislation_patterns =
    [lit ''REDA'' @ section_tail,
     lit ''EPEA'' @ section_tail,
     lit ''OGCA'' @ section_tail,
     lit ''Pipeline'' @ [Plus Space] @ lit ''Act'' @ section_tail,
     lit ''Water'' @ [Plus Space] @ lit ''Act'' @ section_tail,
     lit ''Public'' @ [Plus Space] @ lit ''Lands'' @ [Plus Space] @ lit ''Act'' @ section_tail]"

definition directive_patterns :: "regex list" where
  "directive_patterns =
    [lit ''Directive'' @ [Plus Space, Opt (Chr 48), Plus Digit],
     lit ''Directive'' @ [Plus Space, Opt (Chr 48), Plus Digit,
        Plus Space, One (Chr 115), Opt (Chr 46), Star Space, Plus (Alt Digit (Chr 46))]]"

text \<open>
  \<open>extract_regulatory_citations\<close> collects the matches of every pattern in a Python set
  and returns \<open>list(citations)\<close>, whose order is unspecified: the result is modelled as
  the set of its elements.
\<close>

definition extract_regulatory_citations :: "ustr \<Rightarrow> ustr set" where
  "extract_regulatory_citations text =
     set (concat (map (\<lambda>pattern. findall True pattern text)
                      (legislation_patterns @ directive_patterns)))"

section \<open>Chunking (src/scripts/ingest-documents.py)\<close>

text \<open>
  A page is the dict \<open>{"page_number": .., "text": ..}\<close> that the PDF extraction
  yields; a chunk is the dict \<open>chunk_text\<close> appends. The tokenizer is external
  (\<open>tiktoken\<close>): \<open>tok s\<close> stands for \<open>len(TOKENIZER.encode(s))\<close> and is a parameter of
  every function below.
\<close>

record Page =
  page_number :: nat
  page_text :: ustr

record Chunk =
  chunk_id :: nat
  content :: ustr
  page_number :: nat
  paragraph_number :: "ustr option"
  regulatory_citations :: "ustr set"

text \<open>The local variables of \<open>chunk_text\<close> that its loops update.\<close>

record chunker =
  chunks :: "Chunk list"
  current_chunk :: "ustr list"
  current_tokens :: nat
  current_page :: nat
  next_chunk_id :: nat

definition paragraph_break :: regex where
  "paragraph_break = [One (Chr 10), Star Space, One (Chr 10)]"

definition sentence_break :: regex where
  "sentence_break = [Behind (Alt (Chr 46) (Alt (Chr 33) (Chr 63))), Plus Space]"

text \<open>
  The block the source repeats at each flush: join the pending units with the separator,
  build the chunk dict, append it and increment \<open>chunk_id\<close> (the variable is
  \<open>next_chunk_id\<close> here). After the last flush the source does not increment, which
  nothing observes.
\<close>

definition make_chunk :: "chunker \<Rightarrow> ustr \<Rightarrow> Chunk" where
  "make_chunk st chunk_text =
    (let para_nums = extract_paragraph_numbers chunk_text
     in \<lparr>chunk_id = next_chunk_id st,
         content = chunk_text,
         Chunk.page_number = current_page st,
         paragraph_number = (case para_nums of [] \<Rightarrow> None | n # _ \<Rightarrow> Some n),
         regulatory_citations = extract_regulatory_citations chunk_text\<rparr>)"

definition flush :: "ustr \<Rightarrow> chunker \<Rightarrow> chunker" where
  "flush sep st =
     st\<lparr>chunks := chunks st @ [make_chunk st (join sep (current_chunk st))],
        next_chunk_id := next_chunk_id st + 1\<rparr>"

text \<open>The body of \<open>for sent in sentences\<close>.\<close>

definition sentence_step :: "(ustr \<Rightarrow> nat) \<Rightarrow> int \<Rightarrow> nat \<Rightarrow> chunker \<Rightarrow> ustr \<Rightarrow> chunker" where
  "sentence_step tok chunk_size page_num st sent =
    (let sent_tokens = tok sent;
         st1 =
           (if int (current_tokens st + sent_tokens) > chunk_size \<and> current_chunk st \<noteq> [] then
              (let flushed = flush (ustr '' '') st;
                   overlap_text =
                     (if length (current_chunk st) \<ge> 2
                      then join (ustr '' '')
                             (drop (length (current_chunk st) - 2) (current_chunk st))
                      else [])
               in flushed\<lparr>current_chunk := (if overlap_text \<noteq> [] then [overlap_text] else []),
                          current_tokens := (if overlap_text \<noteq> [] then tok overlap_text else 0)\<rparr>)
            else st)
     in st1\<lparr>current_chunk := current_chunk st1 @ [sent],
            current_tokens := current_tokens st1 + sent_tokens,
            current_page := page_num\<rparr>)"

text \<open>The body of \<open>for para in paragraphs\<close>.\<close>

definition paragraph_step :: "(ustr \<Rightarrow> nat) \<Rightarrow> int \<Rightarrow> nat \<Rightarrow> chunker \<Rightarrow> ustr \<Rightarrow> chunker" where
  "paragraph_step tok chunk_size page_num st para0 =
    (let para = strip para0 in
     if para = [] then st
     else
       let para_tokens = tok para in
       if int para_tokens > chunk_size then
         (let st1 =
                (if current_chunk st \<noteq> []
                 then (flush [10, 10] st)\<lparr>current_chunk := [], current_tokens := 0\<rparr>
                 else st);
              sentences = re_split sentence_break para
          in foldl (sentence_step tok chunk_size page_num) st1 sentences)
       else if int (current_tokens st + para_tokens) > chunk_size then
         (let flushed = flush [10, 10] st;
              overlap_paragraphs =
                (if current_chunk st \<noteq> [] then [last (current_chunk st)] else []);
              new_chunk = overlap_paragraphs @ [para]
          in flushed\<lparr>current_chunk := new_chunk,
                     current_tokens := sum_list (map tok new_chunk),
                     current_page := page_num\<rparr>)
       else
         st\<lparr>current_chunk := current_chunk st @ [para],
            current_tokens := current_tokens st + para_tokens,
            current_page := page_num\<rparr>)"

text \<open>The body of \<open>for page in pages\<close>.\<close>

definition page_step :: "(ustr \<Rightarrow> nat) \<Rightarrow> int \<Rightarrow> chunker \<Rightarrow> Page \<Rightarrow> chunker" where
  "page_step tok chunk_size st page =
    (let page_num = Page.page_number page;
         paragraphs = re_split paragraph_break (page_text page)
     in foldl (paragraph_step tok chunk_size page_num) st paragraphs)"

definition chunker_init :: chunker where
  "chunker_init =
     \<lparr>chunks = [], current_chunk = [], current_tokens = 0, current_page = 1,
      next_chunk_id = 0\<rparr>"

text \<open>\<open>chunk_text(pages, chunk_size, overlap)\<close>; the source never reads \<open>overlap\<close>.\<close>

definition chunk_text :: "(ustr \<Rightarrow> nat) \<Rightarrow> Page list \<Rightarrow> int \<Rightarrow> int \<Rightarrow> Chunk list" where
  "chunk_text tok pages chunk_size overlap =
    (let st = foldl (page_step tok chunk_size) chunker_init pages
     in chunks (if current_chunk st \<noteq> [] then flush [10, 10] st else st))"

text \<open>
  A stand-in tokenizer for concrete runs, the one the specification suggests: the number
  of whitespace-separated words (\<open>len(s.split())\<close>).
\<close>

fun count_words :: "bool \<Rightarrow> ustr \<Rightarrow> nat" where
  "count_words in_word [] = 0"
| "count_words in_word (c # cs) =
     (if is_space c then count_words False cs
      else (if in_word then 0 else 1) + count_words True cs)"

definition word_count :: "ustr \<Rightarrow> nat" where
  "word_count s = count_words False s"


definition carried_fragments :: "ustr \<Rightarrow> ustr \<Rightarrow> ustr list" where
  "carried_fragments previous current =
     filter (\<lambda>f. f \<noteq> [] \<and> suffix f previous) (prefixes current)"

fun split_words :: "ustr \<Rightarrow> ustr \<Rightarrow> ustr list" where
  "split_words w [] = (if w = [] then [] else [w])"
| "split_words w (c # cs) =
     (if is_space c then (if w = [] then split_words [] cs else w # split_words [] cs)
      else split_words (w @ [c]) cs)"

definition words :: "ustr \<Rightarrow> ustr list" where
  "words s = split_words [] s"

text \<open>
  Used in proofs only. \<open>overlap_chain U cs\<close>: every content of \<open>cs\<close> but the first
  begins with a non-empty unit of \<open>U\<close> that ends the content before it.
  \<open>paragraph_inv\<close> is the invariant of the paragraph loop on inputs without an
  oversized paragraph.
\<close>

definition overlap_chain :: "ustr set \<Rightarrow> ustr list \<Rightarrow> bool" where
  "overlap_chain U cs =
     (\<forall>i. 0 < i \<and> i < length cs \<longrightarrow>
        (\<exists>f\<in>U. f \<noteq> [] \<and> prefix f (cs ! i) \<and> suffix f (cs ! (i - 1))))"


text \<open>
  Used in proofs only. A pattern all of whose consuming items are whitespace classes
  matches whitespace only. \<open>remainders\<close> removes from each content the fragment paired
  with it. \<open>recon_done cs consumed\<close>: the contents \<open>cs\<close> have overlap fragments, each
  a beginning of its content and an ending of the content before it, the first empty,
  whose removal leaves the words \<open>consumed\<close>. \<open>recon_inv\<close> is the invariant of
  the loops: the pending units are an optional seed, carried from the last chunk, and
  the units not yet flushed.
\<close>

fun ws_atom :: "atom \<Rightarrow> bool" where
  "ws_atom (Chr k) = is_space k"
| "ws_atom Space = True"
| "ws_atom Digit = False"
| "ws_atom (Alt a b) = (ws_atom a \<and> ws_atom b)"

fun ws_item :: "item \<Rightarrow> bool" where
  "ws_item (One a) = ws_atom a"
| "ws_item (Opt a) = ws_atom a"
| "ws_item (Star a) = ws_atom a"
| "ws_item (Plus a) = ws_atom a"
| "ws_item (Behind a) = True"

definition remainders :: "ustr list \<Rightarrow> ustr list \<Rightarrow> ustr list" where
  "remainders overlaps cs = map (\<lambda>(ov, c). drop (length ov) c) (zip overlaps cs)"

definition recon_done :: "ustr list \<Rightarrow> ustr list \<Rightarrow> bool" where
  "recon_done cs consumed =
     (\<exists>overlaps.
        list_all2 prefix overlaps cs
        \<and> list_all2 suffix (tl overlaps) (butlast cs)
        \<and> hd (overlaps @ [[]]) = []
        \<and> concat (map words (remainders overlaps cs)) = consumed)"

definition recon_inv :: "chunker \<Rightarrow> ustr list \<Rightarrow> bool" where
  "recon_inv st consumed =
     (\<exists>seed new flushed.
        current_chunk st = seed @ new
        \<and> (seed = []
            \<or> (chunks st \<noteq> [] \<and> length seed = 1
                \<and> suffix (hd seed) (content (last (chunks st)))))
        \<and> recon_done (map content (chunks st)) flushed
        \<and> flushed @ concat (map words new) = consumed
        \<and> next_chunk_id st = length (chunks st)
        \<and> map chunk_id (chunks st) = [0..<length (chunks st)])"

section \<open>The filter language of the retrieval backend\<close>

text \<open>
  The text of \<open>build_search_filter\<close> is sent to the retrieval backend as an OData
  \<open>$filter\<close>. What that text means is given here on the fragment of the language the
  source writes: a field compared (\<open>eq\<close>, \<open>ne\<close>) with a string literal,
  \<open>coll/any(x: x eq 'lit')\<close> over a collection of strings, \<open>and\<close>, \<open>or\<close> (\<open>and\<close> binds
  tighter) and parentheses. A string literal is delimited by single quotes; inside a
  literal a quote is written twice. \<open>lex_filter\<close> reads the text character by character,
  \<open>parse_or\<close> is a recursive-descent parser whose first argument bounds the depth of
  its calls, and \<open>odata_eval\<close> evaluates the text on the two fields of an index document.
  \<open>None\<close> is a text outside the fragment.
\<close>

datatype token = Word string | Str string | LP | RP | Colon | Slash

datatype lex_mode = Idle | In_word string | In_str string | After_quote string

definition is_delimiter :: "char \<Rightarrow> bool" where
  "is_delimiter c =
     (c = CHR '' '' \<or> c = CHR ''('' \<or> c = CHR '')'' \<or> c = CHR '':'' \<or> c = CHR ''/''
      \<or> c = CHR 0x27)"

function lex_filter :: "lex_mode \<Rightarrow> string \<Rightarrow> token list option" where
  "lex_filter Idle [] = Some []"
| "lex_filter (In_word w) [] = Some [Word w]"
| "lex_filter (In_str s) [] = None"
| "lex_filter (After_quote s) [] = Some [Str s]"
| "lex_filter Idle (c # cs) =
     (if c = CHR '' '' then lex_filter Idle cs
      else if c = CHR ''('' then map_option ((#) LP) (lex_filter Idle cs)
      else if c = CHR '')'' then map_option ((#) RP) (lex_filter Idle cs)
      else if c = CHR '':'' then map_option ((#) Colon) (lex_filter Idle cs)
      else if c = CHR ''/'' then map_option ((#) Slash) (lex_filter Idle cs)
      else if c = CHR 0x27 then lex_filter (In_str []) cs
      else lex_filter (In_word [c]) cs)"
| "lex_filter (In_word w) (c # cs) =
     (if is_delimiter c then map_option ((#) (Word w)) (lex_filter Idle (c # cs))
      else lex_filter (In_word (w @ [c])) cs)"
| "lex_filter (In_str s) (c # cs) =
     (if c = CHR 0x27 then lex_filter (After_quote s) cs else lex_filter (In_str (s @ [c])) cs)"
| "lex_filter (After_quote s) (c # cs) =
     (if c = CHR 0x27 then lex_filter (In_str (s @ [CHR 0x27])) cs
      else map_option ((#) (Str s)) (lex_filter Idle (c # cs)))"
  by pat_completeness auto
termination
  by (relation "measures [\<lambda>(m, s). length s, \<lambda>(m, s). (case m of Idle \<Rightarrow> 0 | _ \<Rightarrow> 1)]")
    auto

datatype odata =
    Cmp string bool string
  | Any_cmp string bool string
  | Disj odata odata
  | Conj odata odata

text \<open>
  A comparison operator: \<open>Some True\<close> for \<open>eq\<close>, \<open>Some False\<close> for \<open>ne\<close>.
\<close>

definition cmp_op :: "string \<Rightarrow> bool option" where
  "cmp_op w = (if w = ''eq'' then Some True else if w = ''ne'' then Some False else None)"

text \<open>
  Small steps of the parser: the next token is the expected one; the next token is a
  word; the next tokens are an operator and a literal; the rest of
  \<open>coll/any(x: x eq 'lit')\<close> after the slash.
\<close>

definition expect :: "token \<Rightarrow> token list \<Rightarrow> token list option" where
  "expect t ts = (case ts of [] \<Rightarrow> None | t1 # ts1 \<Rightarrow> if t1 = t then Some ts1 else None)"

definition take_word :: "token list \<Rightarrow> (string \<times> token list) option" where
  "take_word ts = (case ts of Word w # ts1 \<Rightarrow> Some (w, ts1) | _ \<Rightarrow> None)"

definition parse_cmp :: "token list \<Rightarrow> (bool \<times> string \<times> token list) option" where
  "parse_cmp ts =
     (case ts of
        Word w # ts1 \<Rightarrow>
          (case ts1 of
             Str v # ts2 \<Rightarrow>
               (case cmp_op w of Some is_eq \<Rightarrow> Some (is_eq, v, ts2) | None \<Rightarrow> None)
           | _ \<Rightarrow> None)
      | _ \<Rightarrow> None)"

definition parse_any :: "string \<Rightarrow> token list \<Rightarrow> (odata \<times> token list) option" where
  "parse_any coll ts =
     Option.bind (expect (Word ''any'') ts) (\<lambda>ts1.
     Option.bind (expect LP ts1) (\<lambda>ts2.
     Option.bind (take_word ts2) (\<lambda>(x, ts3).
     Option.bind (expect Colon ts3) (\<lambda>ts4.
     Option.bind (expect (Word x) ts4) (\<lambda>ts5.
     Option.bind (parse_cmp ts5) (\<lambda>(is_eq, v, ts6).
     Option.bind (expect RP ts6) (\<lambda>ts7.
     Some (Any_cmp coll is_eq v, ts7))))))))"

fun parse_prim :: "nat \<Rightarrow> token list \<Rightarrow> (odata \<times> token list) option"
  and parse_and :: "nat \<Rightarrow> token list \<Rightarrow> (odata \<times> token list) option"
  and parse_and_rest :: "nat \<Rightarrow> odata \<Rightarrow> token list \<Rightarrow> (odata \<times> token list) option"
  and parse_or :: "nat \<Rightarrow> token list \<Rightarrow> (odata \<times> token list) option"
  and parse_or_rest :: "nat \<Rightarrow> odata \<Rightarrow> token list \<Rightarrow> (odata \<times> token list) option"
where
  "parse_prim 0 ts = None"
| "parse_prim (Suc n) ts =
     (case ts of
        LP # ts1 \<Rightarrow>
          (case parse_or n ts1 of
             Some (e, ts2) \<Rightarrow> map_option (Pair e) (expect RP ts2)
           | None \<Rightarrow> None)
      | Word f # ts1 \<Rightarrow>
          (case ts1 of
             Slash # ts2 \<Rightarrow> parse_any f ts2
           | _ \<Rightarrow>
               (case parse_cmp ts1 of
                  Some (is_eq, v, ts2) \<Rightarrow> Some (Cmp f is_eq v, ts2)
                | None \<Rightarrow> None))
      | _ \<Rightarrow> None)"
| "parse_and 0 ts = None"
| "parse_and (Suc n) ts =
     (case parse_prim n ts of
        Some (e, ts1) \<Rightarrow> parse_and_rest n e ts1
      | None \<Rightarrow> None)"
| "parse_and_rest 0 e ts = None"
| "parse_and_rest (Suc n) e ts =
     (case ts of
        Word w # ts1 \<Rightarrow>
          (if w = ''and'' then
             (case parse_prim n ts1 of
                Some (e1, ts2) \<Rightarrow> parse_and_rest n (Conj e e1) ts2
              | None \<Rightarrow> None)
           else Some (e, ts))
      | _ \<Rightarrow> Some (e, ts))"
| "parse_or 0 ts = None"
| "parse_or (Suc n) ts =
     (case parse_and n ts of
        Some (e, ts1) \<Rightarrow> parse_or_rest n e ts1
      | None \<Rightarrow> None)"
| "parse_or_rest 0 e ts = None"
| "parse_or_rest (Suc n) e ts =
     (case ts of
        Word w # ts1 \<Rightarrow>
          (if w = ''or'' then
             (case parse_and n ts1 of
                Some (e1, ts2) \<Rightarrow> parse_or_rest n (Disj e e1) ts2
              | None \<Rightarrow> None)
           else Some (e, ts))
      | _ \<Rightarrow> Some (e, ts))"

definition odata_parse :: "string \<Rightarrow> odata option" where
  "odata_parse text0 =
     (case lex_filter Idle text0 of
        None \<Rightarrow> None
      | Some ts \<Rightarrow>
          (case parse_or (4 * length ts + 4) ts of
             Some (e, []) \<Rightarrow> Some e
           | _ \<Rightarrow> None))"

fun odata_holds :: "odata \<Rightarrow> string \<Rightarrow> string list \<Rightarrow> bool option" where
  "odata_holds (Cmp f is_eq v) lvl ps =
     (if f = ''confidentialityLevel'' then Some ((lvl = v) = is_eq) else None)"
| "odata_holds (Any_cmp coll is_eq v) lvl ps =
     (if coll = ''parties'' then Some (list_ex (\<lambda>p. (p = v) = is_eq) ps) else None)"
| "odata_holds (Disj a b) lvl ps =
     (case (odata_holds a lvl ps, odata_holds b lvl ps) of
        (Some x, Some y) \<Rightarrow> Some (x \<or> y)
      | _ \<Rightarrow> None)"
| "odata_holds (Conj a b) lvl ps =
     (case (odata_holds a lvl ps, odata_holds b lvl ps) of
        (Some x, Some y) \<Rightarrow> Some (x \<and> y)
      | _ \<Rightarrow> None)"

definition odata_eval :: "string \<Rightarrow> string \<Rightarrow> string list \<Rightarrow> bool option" where
  "odata_eval text0 lvl ps =
     (case odata_parse text0 of None \<Rightarrow> None | Some e \<Rightarrow> odata_holds e lvl ps)"

text \<open>
  The decision of the bulk query on a document: the filter of \<open>build_search_filter\<close>,
  evaluated as the backend evaluates its text on the fields the ingestion writes to the
  index (the level's string value and the party names); no filter admits every document.
\<close>

definition search_admits :: "UserClaims \<Rightarrow> DocumentMetadata \<Rightarrow> bool option" where
  "search_admits user_claims document =
     (case build_search_filter user_claims of
        None \<Rightarrow> Some True
      | Some security_filter \<Rightarrow>
          odata_eval security_filter (level_value (confidentiality_level document))
            (map Party.name (parties document)))"

section \<open>Access policy: results\<close>

lemma build_search_filter_render:
  "build_search_filter user_claims = render_filter (search_filter_predicate user_claims)"
  by (simp add: build_search_filter_def search_filter_predicate_def render_filter_def Let_def)

lemma level_value_eq_public [simp]: "(level_value l = ''public'') = (l = PUBLIC)"
  by (cases l) simp_all

lemma level_value_eq_confidential [simp]: "(level_value l = ''confidential'') = (l = CONFIDENTIAL)"
  by (cases l) simp_all

text \<open>
  The clause list of \<open>search_filter_predicate\<close>, evaluated on the document's
  confidentiality level and party names, decides as \<open>can_access_document\<close> does, and
  \<open>build_search_filter\<close> returns its rendering. This is about the clauses, not yet
  about the text the backend receives.
\<close>

lemma predicate_check_equivalence:
  "build_search_filter user_claims = render_filter (search_filter_predicate user_claims)
   \<and> eval_filter (search_filter_predicate user_claims) document
       = can_access_document user_claims document
   \<and> eval_filter None document = True"
proof -
  have "eval_filter (search_filter_predicate user_claims) document
          = can_access_document user_claims document"
  proof (cases "confidentiality_level document")
    case PUBLIC
    then show ?thesis
      by (simp add: search_filter_predicate_def can_access_document_def Let_def)
  next
    case PROTECTED_A
    then show ?thesis
      by (cases "party_affiliation user_claims")
        (auto simp add: search_filter_predicate_def can_access_document_def Let_def)
  next
    case CONFIDENTIAL
    then show ?thesis
      by (simp add: search_filter_predicate_def can_access_document_def Let_def)
  qed
  then show ?thesis
    by (simp add: build_search_filter_def search_filter_predicate_def render_filter_def Let_def)
qed

text \<open>
  C2. For a confidential document, access is granted exactly when the roles include
  \<open>Hearing_Panel\<close>; a \<open>Staff\<close> role or a matching party affiliation does not grant it.
\<close>

theorem confidential_only_hearing_panel:
  "confidentiality_level document = CONFIDENTIAL \<Longrightarrow>
     can_access_document user_claims document
       = (''Hearing_Panel'' \<in> set (roles user_claims))"
  by (simp add: can_access_document_def)

theorem confidential_only_hearing_panel_witness:
  "confidentiality_level
      \<lparr>doc_id = ''d1'', proceeding_id = ''1234'', title = ''Order'',
       parties = [\<lparr>Party.name = ''Crowsnest Pass Residents Association'',
                   role = INTERVENER, Party.ba_code = None\<rparr>],
       confidentiality_level = CONFIDENTIAL\<rparr> = CONFIDENTIAL
   \<and> can_access_document
        \<lparr>oid = ''u1'', name = ''U'', email = ''u@example.com'', roles = [''Staff''],
         party_affiliation = Some ''Crowsnest Pass Residents Association'', ba_code = None\<rparr>
        \<lparr>doc_id = ''d1'', proceeding_id = ''1234'', title = ''Order'',
         parties = [\<lparr>Party.name = ''Crowsnest Pass Residents Association'',
                     role = INTERVENER, Party.ba_code = None\<rparr>],
         confidentiality_level = CONFIDENTIAL\<rparr> = False"
  using confidential_only_hearing_panel
    [of "\<lparr>doc_id = ''d1'', proceeding_id = ''1234'', title = ''Order'',
         parties = [\<lparr>Party.name = ''Crowsnest Pass Residents Association'',
                     role = INTERVENER, Party.ba_code = None\<rparr>],
         confidentiality_level = CONFIDENTIAL\<rparr>"
        "\<lparr>oid = ''u1'', name = ''U'', email = ''u@example.com'', roles = [''Staff''],
         party_affiliation = Some ''Crowsnest Pass Residents Association'', ba_code = None\<rparr>"]
  by simp

text \<open>
  C3, as the code has it. For a \<open>protected_a\<close> document, access is granted exactly when
  the roles include \<open>Staff\<close> or \<open>Hearing_Panel\<close>, or the claims carry a non-empty
  party affiliation equal, as a string, to the name of a party on the roster. The guard
  \<open>if user_claims.party_affiliation\<close> treats an empty affiliation as absent.
\<close>

theorem protected_a_access:
  "confidentiality_level document = PROTECTED_A \<Longrightarrow>
     can_access_document user_claims document
       = (''Staff'' \<in> set (roles user_claims) \<or> ''Hearing_Panel'' \<in> set (roles user_claims)
          \<or> (\<exists>aff. party_affiliation user_claims = Some aff \<and> aff \<noteq> []
                \<and> aff \<in> set (map Party.name (parties document))))"
  by (cases "party_affiliation user_claims") (auto simp add: can_access_document_def)

theorem protected_a_access_witness:
  "confidentiality_level
      \<lparr>doc_id = ''d2'', proceeding_id = ''1234'', title = ''Submission'',
       parties = [\<lparr>Party.name = ''Crowsnest Pass Residents Association'',
                   role = INTERVENER, Party.ba_code = None\<rparr>],
       confidentiality_level = PROTECTED_A\<rparr> = PROTECTED_A
   \<and> can_access_document
        \<lparr>oid = ''demo-intervener-001'', name = ''Intervener Demo'',
         email = ''intervener@example.com'', roles = [''Intervener''],
         party_affiliation = Some ''Crowsnest Pass Residents Association'', ba_code = None\<rparr>
        \<lparr>doc_id = ''d2'', proceeding_id = ''1234'', title = ''Submission'',
         parties = [\<lparr>Party.name = ''Crowsnest Pass Residents Association'',
                     role = INTERVENER, Party.ba_code = None\<rparr>],
         confidentiality_level = PROTECTED_A\<rparr> = True"
  using protected_a_access
    [of "\<lparr>doc_id = ''d2'', proceeding_id = ''1234'', title = ''Submission'',
         parties = [\<lparr>Party.name = ''Crowsnest Pass Residents Association'',
                     role = INTERVENER, Party.ba_code = None\<rparr>],
         confidentiality_level = PROTECTED_A\<rparr>"
        "\<lparr>oid = ''demo-intervener-001'', name = ''Intervener Demo'',
         email = ''intervener@example.com'', roles = [''Intervener''],
         party_affiliation = Some ''Crowsnest Pass Residents Association'', ba_code = None\<rparr>"]
  by simp

text \<open>
  C3 as stated fails where the affiliation is the empty string and a party on the
  roster has the empty name: the two strings are equal, and access is refused.
\<close>

theorem protected_a_empty_affiliation_counterexample:
  "confidentiality_level
      \<lparr>doc_id = ''d3'', proceeding_id = ''1234'', title = ''Submission'',
       parties = [\<lparr>Party.name = [], role = INTERVENER, Party.ba_code = None\<rparr>],
       confidentiality_level = PROTECTED_A\<rparr> = PROTECTED_A
   \<and> party_affiliation
        \<lparr>oid = ''u2'', name = ''U'', email = ''u@example.com'', roles = [''Intervener''],
         party_affiliation = Some [], ba_code = None\<rparr> = Some []
   \<and> [] \<in> set (map Party.name (parties
        \<lparr>doc_id = ''d3'', proceeding_id = ''1234'', title = ''Submission'',
         parties = [\<lparr>Party.name = [], role = INTERVENER, Party.ba_code = None\<rparr>],
         confidentiality_level = PROTECTED_A\<rparr>))
   \<and> can_access_document
        \<lparr>oid = ''u2'', name = ''U'', email = ''u@example.com'', roles = [''Intervener''],
         party_affiliation = Some [], ba_code = None\<rparr>
        \<lparr>doc_id = ''d3'', proceeding_id = ''1234'', title = ''Submission'',
         parties = [\<lparr>Party.name = [], role = INTERVENER, Party.ba_code = None\<rparr>],
         confidentiality_level = PROTECTED_A\<rparr> = False"
  by (simp add: can_access_document_def)

text \<open>
  C8, as the code has it. \<open>build_search_filter\<close> returns \<open>None\<close> exactly when the roles
  include \<open>Hearing_Panel\<close>, and a filter otherwise. For claims with neither \<open>Staff\<close> nor
  \<open>Hearing_Panel\<close> and no (or an empty) party affiliation, the filter is the text below,
  and its predicate holds exactly of the public documents.
\<close>

theorem build_search_filter_presence:
  "(build_search_filter user_claims = None) = (''Hearing_Panel'' \<in> set (roles user_claims))
   \<and> (''Staff'' \<notin> set (roles user_claims) \<and> ''Hearing_Panel'' \<notin> set (roles user_claims)
        \<and> \<not> truthy (party_affiliation user_claims) \<longrightarrow>
          build_search_filter user_claims
            = Some (''confidentialityLevel ne 'confidential' and confidentialityLevel eq 'public''
                    @ [CHR 0x27])
          \<and> eval_filter (search_filter_predicate user_claims) document
              = (confidentiality_level document = PUBLIC))"
  by (cases "confidentiality_level document")
    (simp_all add: build_search_filter_def search_filter_predicate_def Let_def)

theorem build_search_filter_presence_witness:
  "build_search_filter
      \<lparr>oid = ''demo-public-001'', name = ''Public User'', email = ''public@example.com'',
       roles = [], party_affiliation = None, ba_code = None\<rparr>
     = Some (''confidentialityLevel ne 'confidential' and confidentialityLevel eq 'public''
             @ [CHR 0x27])
   \<and> eval_filter (search_filter_predicate
        \<lparr>oid = ''demo-public-001'', name = ''Public User'', email = ''public@example.com'',
         roles = [], party_affiliation = None, ba_code = None\<rparr>)
        \<lparr>doc_id = ''d2'', proceeding_id = ''1234'', title = ''Submission'', parties = [],
         confidentiality_level = PROTECTED_A\<rparr> = False"
  using build_search_filter_presence
    [of "\<lparr>oid = ''demo-public-001'', name = ''Public User'', email = ''public@example.com'',
         roles = [], party_affiliation = None, ba_code = None\<rparr>"
        "\<lparr>doc_id = ''d2'', proceeding_id = ''1234'', title = ''Submission'', parties = [],
         confidentiality_level = PROTECTED_A\<rparr>"]
  by simp

text \<open>
  C8 as stated fails for a \<open>Hearing_Panel\<close> user: no clause is added and the function
  returns \<open>None\<close>.
\<close>

theorem build_search_filter_absent_counterexample:
  "build_search_filter
      \<lparr>oid = ''demo-panel-001'', name = ''Commissioner Demo'', email = ''panel@aer.ca'',
       roles = [''Hearing_Panel''], party_affiliation = None, ba_code = None\<rparr> = None"
  by (simp add: build_search_filter_def)

text \<open>
  C10. With no valid \<open>X-Demo-Role\<close> header, no valid \<open>DEMO_ROLE\<close> value and no claims on
  the request state, \<open>get_current_user\<close> looks up \<open>DEMO_USERS["AER_Staff"]\<close> when
  \<open>ENVIRONMENT\<close> is \<open>development\<close> (its default), and also in production once
  credentials are present. The keys of \<open>DEMO_USERS\<close> are \<open>Hearing_Panel\<close>, \<open>Staff\<close>,
  \<open>Intervener\<close> and \<open>Public\<close>, so both lookups raise \<open>KeyError\<close>.
\<close>

theorem get_current_user_default_lookup_fails:
  assumes "\<not> is_demo_role x_demo_role"
    and "\<not> is_demo_role (environ ''DEMO_ROLE'')"
  shows "map fst DEMO_USERS = [''Hearing_Panel'', ''Staff'', ''Intervener'', ''Public'']
    \<and> ((case environ ''ENVIRONMENT'' of None \<Rightarrow> ''development'' | Some v \<Rightarrow> v) = ''development''
          \<longrightarrow> get_current_user None environ credentials x_demo_role
                = Inl (KeyError ''AER_Staff''))
    \<and> ((case environ ''ENVIRONMENT'' of None \<Rightarrow> ''development'' | Some v \<Rightarrow> v) \<noteq> ''development''
          \<and> credentials \<noteq> None
          \<longrightarrow> get_current_user None environ credentials x_demo_role
                = Inl (KeyError ''AER_Staff''))"
proof -
  have keys: "map fst DEMO_USERS = [''Hearing_Panel'', ''Staff'', ''Intervener'', ''Public'']"
    by (simp add: DEMO_USERS_def)
  have missing: "dict_getitem DEMO_USERS ''AER_Staff'' = Inl (KeyError ''AER_Staff'')"
    by (simp add: dict_getitem_def DEMO_USERS_def)
  show ?thesis
    using assms keys missing
    by (auto simp add: get_current_user_def Let_def split: option.splits)
qed

theorem get_current_user_default_lookup_fails_witness:
  "\<not> is_demo_role None
   \<and> get_current_user None (\<lambda>k. None) (None :: unit option) None
       = Inl (KeyError ''AER_Staff'')
   \<and> \<not> is_demo_role (Some ''AER_Staff'')
   \<and> get_current_user None
        (\<lambda>k. if k = ''ENVIRONMENT'' then Some ''production'' else None)
        (Some ()) (Some ''AER_Staff'')
       = Inl (KeyError ''AER_Staff'')"
proof -
  have a: "\<not> is_demo_role None"
    by (simp add: is_demo_role_def)
  have b: "\<not> is_demo_role (Some ''AER_Staff'')"
    by (simp add: is_demo_role_def DEMO_USERS_def)
  have c: "\<not> is_demo_role ((\<lambda>k. if k = ''ENVIRONMENT'' then Some ''production'' else None)
             ''DEMO_ROLE'')"
    by (simp add: is_demo_role_def)
  show ?thesis
    using a b
      get_current_user_default_lookup_fails
        [of None "\<lambda>k. None" "None :: unit option", OF a a]
      get_current_user_default_lookup_fails
        [of "Some ''AER_Staff''"
            "\<lambda>k. if k = ''ENVIRONMENT'' then Some ''production'' else None" "Some ()",
         OF b c]
    by simp
qed

section \<open>The filter text: results\<close>

lemma parse_numeral:
  "parse_prim (numeral k) ts = parse_prim (Suc (pred_numeral k)) ts"
  "parse_and (numeral k) ts = parse_and (Suc (pred_numeral k)) ts"
  "parse_and_rest (numeral k) e ts = parse_and_rest (Suc (pred_numeral k)) e ts"
  "parse_or (numeral k) ts = parse_or (Suc (pred_numeral k)) ts"
  "parse_or_rest (numeral k) e ts = parse_or_rest (Suc (pred_numeral k)) e ts"
  by (simp_all only: numeral_eq_Suc)

lemmas parse_unfold =
  parse_numeral(1) [unfolded parse_prim.simps(2)]
  parse_numeral(2) [unfolded parse_and.simps(2)]
  parse_numeral(3) [unfolded parse_and_rest.simps(2)]
  parse_numeral(4) [unfolded parse_or.simps(2)]
  parse_numeral(5) [unfolded parse_or_rest.simps(2)]

lemmas odata_defs =
  parse_unfold odata_eval_def odata_parse_def cmp_op_def is_delimiter_def
  expect_def take_word_def parse_cmp_def parse_any_def

lemma lex_literal:
  "CHR 0x27 \<notin> set aff \<Longrightarrow>
     lex_filter (In_str buf) (aff @ CHR 0x27 # rest) = lex_filter (After_quote (buf @ aff)) rest"
  by (induction aff arbitrary: buf) auto

lemma eval_no_affiliation:
  "odata_eval (''confidentialityLevel ne 'confidential' and confidentialityLevel eq 'public''
      @ [CHR 0x27]) lvl ps = Some (lvl \<noteq> ''confidential'' \<and> lvl = ''public'')"
  by (simp add: odata_defs)

lemma eval_staff:
  "odata_eval (''confidentialityLevel ne 'confidential'' @ [CHR 0x27]) lvl ps
     = Some (lvl \<noteq> ''confidential'')"
  by (simp add: odata_defs)

lemma eval_affiliation:
  "CHR 0x27 \<notin> set aff \<Longrightarrow>
   odata_eval (''confidentialityLevel ne 'confidential' and (confidentialityLevel eq 'public' or ''
      @ ''parties/any(p: p eq '' @ [CHR 0x27] @ aff @ [CHR 0x27] @ ''))'') lvl ps
     = Some (lvl \<noteq> ''confidential'' \<and> (lvl = ''public'' \<or> aff \<in> set ps))"
  by (simp add: odata_defs lex_literal list_ex_iff)

text \<open>
  Where the party affiliation holds no single quote, the text of the filter, evaluated
  as the backend evaluates it, decides as \<open>can_access_document\<close> does.
\<close>

lemma search_admits_without_quote:
  assumes "\<And>aff. party_affiliation user_claims = Some aff \<Longrightarrow> CHR 0x27 \<notin> set aff"
  shows "search_admits user_claims document = Some (can_access_document user_claims document)"
proof (cases "''Hearing_Panel'' \<in> set (roles user_claims)")
  case True
  then show ?thesis
    by (cases "confidentiality_level document")
      (simp_all add: search_admits_def build_search_filter_def can_access_document_def)
next
  case hp: False
  show ?thesis
  proof (cases "''Staff'' \<in> set (roles user_claims)")
    case True
    then show ?thesis
      using hp eval_staff
      by (cases "confidentiality_level document")
        (simp_all add: search_admits_def build_search_filter_def can_access_document_def)
  next
    case staff: False
    show ?thesis
    proof (cases "truthy (party_affiliation user_claims)")
      case False
      then show ?thesis
        using hp staff eval_no_affiliation
        by (cases "confidentiality_level document"; cases "party_affiliation user_claims")
          (simp_all add: search_admits_def build_search_filter_def can_access_document_def)
    next
      case True
      then obtain aff where aff: "party_affiliation user_claims = Some aff" "aff \<noteq> []"
        by (cases "party_affiliation user_claims") auto
      have q: "CHR 0x27 \<notin> set aff"
        using assms aff(1) .
      show ?thesis
        using hp staff aff eval_affiliation [OF q]
        by (cases "confidentiality_level document")
          (simp_all add: search_admits_def build_search_filter_def can_access_document_def)
    qed
  qed
qed

text \<open>
  C1 fails on the code. \<open>build_search_filter\<close> pastes the party affiliation between
  two quotes without doubling the quotes it holds, so an affiliation can close the
  literal and add clauses of its own. For the affiliation
  \<open>x') or (confidentialityLevel eq 'protected_a\<close> and a \<open>protected_a\<close> document on whose
  roster that party is not, the text returned admits the document, and
  \<open>can_access_document\<close> refuses it.
\<close>

theorem filter_text_admits_refused_document:
  "build_search_filter
      \<lparr>oid = ''u3'', name = ''U'', email = ''u@example.com'', roles = [''Intervener''],
       party_affiliation = Some ''x') or (confidentialityLevel eq 'protected_a'',
       ba_code = None\<rparr>
     = Some ''confidentialityLevel ne 'confidential' and (confidentialityLevel eq 'public' or parties/any(p: p eq 'x') or (confidentialityLevel eq 'protected_a'))''
   \<and> search_admits
        \<lparr>oid = ''u3'', name = ''U'', email = ''u@example.com'', roles = [''Intervener''],
         party_affiliation = Some ''x') or (confidentialityLevel eq 'protected_a'',
         ba_code = None\<rparr>
        \<lparr>doc_id = ''d4'', proceeding_id = ''1234'', title = ''Submission'',
         parties = [\<lparr>Party.name = ''Acme Energy'', role = APPLICANT, Party.ba_code = None\<rparr>],
         confidentiality_level = PROTECTED_A\<rparr> = Some True
   \<and> can_access_document
        \<lparr>oid = ''u3'', name = ''U'', email = ''u@example.com'', roles = [''Intervener''],
         party_affiliation = Some ''x') or (confidentialityLevel eq 'protected_a'',
         ba_code = None\<rparr>
        \<lparr>doc_id = ''d4'', proceeding_id = ''1234'', title = ''Submission'',
         parties = [\<lparr>Party.name = ''Acme Energy'', role = APPLICANT, Party.ba_code = None\<rparr>],
         confidentiality_level = PROTECTED_A\<rparr> = False"
  by (simp add: search_admits_def build_search_filter_def can_access_document_def odata_defs)

section \<open>Snippets: results\<close>

lemma strip_prefix:
  "dropWhile is_space s = strip s @ rev (takeWhile is_space (rev (dropWhile is_space s)))"
proof -
  have "rev (dropWhile is_space r) @ rev (takeWhile is_space r) = rev r" for r :: ustr
    by (simp add: rev_append [symmetric] del: rev_append)
  from this [of "rev (dropWhile is_space s)"] show ?thesis
    by (simp add: strip_def)
qed

lemma strip_head: "strip s = x # xs \<Longrightarrow> \<not> is_space x"
proof -
  assume a: "strip s = x # xs"
  have "dropWhile is_space s = (x # xs) @ rev (takeWhile is_space (rev (dropWhile is_space s)))"
    using strip_prefix [of s] a by simp
  then have "dropWhile is_space s \<noteq> [] \<and> hd (dropWhile is_space s) = x"
    by (metis append_Cons list.sel(1) list.distinct(1))
  then show ?thesis using hd_dropWhile [of is_space s] by auto
qed

lemma filter_rev_upt_last:
  "p < n \<Longrightarrow> P p \<Longrightarrow> (\<forall>j. p < j \<longrightarrow> \<not> P j) \<Longrightarrow>
     filter P (rev [0..<n]) = p # filter P (rev [0..<p])"
proof (induction n)
  case 0
  then show ?case by simp
next
  case (Suc n)
  show ?case
  proof (cases "p = n")
    case True
    then show ?thesis using Suc.prems by simp
  next
    case False
    then have "p < n" using Suc.prems by simp
    moreover have "\<not> P n" using Suc.prems \<open>p < n\<close> by simp
    ultimately show ?thesis using Suc by simp
  qed
qed

lemma rfind_last:
  assumes "occurs_at sub s p" and "\<forall>j. p < j \<longrightarrow> \<not> occurs_at sub s j"
  shows "rfind s sub = int p"
proof -
  have "p < Suc (length s)" using assms(1) by (simp add: occurs_at_def)
  then have "filter (occurs_at sub s) (rev [0..<Suc (length s)])
               = p # filter (occurs_at sub s) (rev [0..<p])"
    using assms filter_rev_upt_last [of p "Suc (length s)" "occurs_at sub s"] by blast
  then show ?thesis by (simp add: rfind_def)
qed

lemma rfind_none:
  assumes "\<forall>j. \<not> occurs_at sub s j"
  shows "rfind s sub = - 1"
proof -
  have "filter (occurs_at sub s) (rev [0..<Suc (length s)]) = []"
    using assms by (simp add: filter_empty_conv)
  then show ?thesis by (simp add: rfind_def)
qed

lemma rfind_cases:
  "(rfind s sub = - 1 \<and> (\<forall>j. \<not> occurs_at sub s j))
   \<or> (\<exists>p. rfind s sub = int p \<and> occurs_at sub s p \<and> (\<forall>j. p < j \<longrightarrow> \<not> occurs_at sub s j))"
proof (cases "\<exists>j. occurs_at sub s j")
  case False
  then show ?thesis using rfind_none [of sub s] by simp
next
  case True
  then obtain j where j: "occurs_at sub s j" by blast
  have bound: "\<And>i. occurs_at sub s i \<Longrightarrow> i \<le> length s"
    by (simp add: occurs_at_def)
  define p where "p = Max {i. occurs_at sub s i}"
  have fin: "finite {i. occurs_at sub s i}"
  proof (rule finite_subset)
    show "{i. occurs_at sub s i} \<subseteq> {..length s}" using bound by auto
  qed simp
  have "p \<in> {i. occurs_at sub s i}"
    unfolding p_def using fin j by (intro Max_in) auto
  moreover have "\<forall>j. p < j \<longrightarrow> \<not> occurs_at sub s j"
    unfolding p_def using fin by (metis Max_ge mem_Collect_eq not_le)
  ultimately show ?thesis using rfind_last [of sub s p] by auto
qed


lemma space_not_at_start_of_strip:
  "\<not> occurs_at (ustr '' '') (take n (strip s)) 0"
proof
  assume a: "occurs_at (ustr '' '') (take n (strip s)) 0"
  show False
  proof (cases "strip s")
    case Nil
    with a show False by (simp add: occurs_at_def ustr_def)
  next
    case (Cons x xs)
    with a have "x = 32" by (cases n) (simp_all add: occurs_at_def ustr_def)
    with Cons have "\<not> is_space 32" using strip_head by blast
    then show False by (simp add: is_space_def)
  qed
qed

lemma occurs_at_bound: "occurs_at sub s j \<Longrightarrow> j < Suc (length s)"
  by (simp add: occurs_at_def)

lemma is_last_occurrence_list:
  "is_last_occurrence sub s p
     = (occurs_at sub s p \<and> list_all (\<lambda>j. \<not> occurs_at sub s j) [Suc p..<Suc (length s)])"
  unfolding is_last_occurrence_def list_all_iff
  using occurs_at_bound [of sub s] by (auto simp del: upt_Suc)

lemma no_occurrence_list:
  "(\<forall>j. occurs_at sub s j \<longrightarrow> P j)
     = list_all (\<lambda>j. occurs_at sub s j \<longrightarrow> P j) [0..<Suc (length s)]"
  unfolding list_all_iff
  using occurs_at_bound [of sub s] by (auto simp del: upt_Suc)

text \<open>
  C7, as the code has it. \<open>highlight_snippet\<close> first strips the content of leading and
  trailing whitespace. For a non-negative \<open>max_length\<close>: the stripped content is
  returned when its length is at most \<open>max_length\<close>. Otherwise, with \<open>truncated\<close> its
  first \<open>max_length\<close> characters: if the last \<open>". "\<close> of \<open>truncated\<close> lies strictly after
  the midpoint, the result ends with that period; else, if \<open>truncated\<close> has a space, the
  result is \<open>truncated\<close> up to its last space, followed by \<open>"..."\<close>; else it is
  \<open>truncated\<close> followed by \<open>"..."\<close>.
\<close>

theorem highlight_snippet_cases:
  assumes "0 \<le> max_length"
  shows
    "(int (length (strip content0)) \<le> max_length \<longrightarrow>
        highlight_snippet content0 max_length = strip content0)
     \<and> (max_length < int (length (strip content0)) \<longrightarrow>
         (let truncated = take (nat max_length) (strip content0) in
          (\<forall>p. is_last_occurrence (ustr ''. '') truncated p \<and> max_length div 2 < int p \<longrightarrow>
                highlight_snippet content0 max_length = take (Suc p) truncated)
          \<and> ((\<forall>p. occurs_at (ustr ''. '') truncated p \<longrightarrow> int p \<le> max_length div 2) \<longrightarrow>
               (\<forall>q. is_last_occurrence (ustr '' '') truncated q \<longrightarrow>
                     highlight_snippet content0 max_length = take q truncated @ ustr ''...'')
               \<and> ((\<forall>q. \<not> occurs_at (ustr '' '') truncated q) \<longrightarrow>
                     highlight_snippet content0 max_length = truncated @ ustr ''...''))))"
proof -
  define t where "t = take (nat max_length) (strip content0)"
  have short: "int (length (strip content0)) \<le> max_length \<Longrightarrow>
      highlight_snippet content0 max_length = strip content0"
    by (simp add: highlight_snippet_def)
  have unfold: "highlight_snippet content0 max_length =
      (if rfind t (ustr ''. '') > max_length div 2 then slice_to t (rfind t (ustr ''. '') + 1)
       else if rfind t (ustr '' '') > 0 then slice_to t (rfind t (ustr '' '')) @ ustr ''...''
       else t @ ustr ''...'')"
    if "max_length < int (length (strip content0))"
    using that assms by (simp add: highlight_snippet_def Let_def slice_to_def t_def)
  have sentence: "highlight_snippet content0 max_length = take (Suc p) t"
    if "max_length < int (length (strip content0))"
      and "is_last_occurrence (ustr ''. '') t p" and "max_length div 2 < int p" for p
  proof -
    have "rfind t (ustr ''. '') = int p"
      using that(2) by (simp add: is_last_occurrence_def rfind_last)
    then show ?thesis
      using unfold [OF that(1)] that(3) by (simp add: slice_to_def nat_add_distrib)
  qed
  have no_sentence: "\<not> rfind t (ustr ''. '') > max_length div 2"
    if "\<forall>p. occurs_at (ustr ''. '') t p \<longrightarrow> int p \<le> max_length div 2"
  proof -
    have "0 \<le> max_length div 2" using assms by simp
    then show ?thesis
      using rfind_cases [of t "ustr ''. ''"] that by auto
  qed
  have word: "highlight_snippet content0 max_length = take q t @ ustr ''...''"
    if "max_length < int (length (strip content0))"
      and "\<forall>p. occurs_at (ustr ''. '') t p \<longrightarrow> int p \<le> max_length div 2"
      and "is_last_occurrence (ustr '' '') t q" for q
  proof -
    have r: "rfind t (ustr '' '') = int q"
      using that(3) by (simp add: is_last_occurrence_def rfind_last)
    have "q \<noteq> 0"
    proof
      assume "q = 0"
      with that(3) have "occurs_at (ustr '' '') t 0"
        by (simp add: is_last_occurrence_def)
      then show False
        using space_not_at_start_of_strip [of "nat max_length" content0] by (simp add: t_def)
    qed
    then show ?thesis
      using unfold [OF that(1)] no_sentence [OF that(2)] r by (simp add: slice_to_def)
  qed
  have hard: "highlight_snippet content0 max_length = t @ ustr ''...''"
    if "max_length < int (length (strip content0))"
      and "\<forall>p. occurs_at (ustr ''. '') t p \<longrightarrow> int p \<le> max_length div 2"
      and "\<forall>q. \<not> occurs_at (ustr '' '') t q"
  proof -
    have "rfind t (ustr '' '') = - 1"
      using that(3) by (rule rfind_none)
    then show ?thesis
      using unfold [OF that(1)] no_sentence [OF that(2)] by simp
  qed
  show ?thesis
    unfolding Let_def t_def [symmetric]
    using short sentence word hard by blast
qed


theorem highlight_snippet_cases_witness:
  "highlight_snippet (ustr ''  Aa  '') 8 = ustr ''Aa''
   \<and> highlight_snippet (ustr ''  Aaaaa. Bb cc  '') 8 = ustr ''Aaaaa.''
   \<and> highlight_snippet (ustr ''  Aa. Bb cc  '') 8 = ustr ''Aa. Bb...''
   \<and> highlight_snippet (ustr ''abcdefghij'') 4 = ustr ''abcd...''"
proof -
  have z8: "(0::int) \<le> 8" and z4: "(0::int) \<le> 4"
    by simp_all
  have a: "highlight_snippet (ustr ''  Aa  '') 8 = ustr ''Aa''"
  proof -
    have s: "strip (ustr ''  Aa  '') = ustr ''Aa''"
      by (simp add: strip_def ustr_def is_space_def)
    show ?thesis
      using highlight_snippet_cases [of 8 "ustr ''  Aa  ''"] by (simp add: s) (simp add: ustr_def)
  qed
  have b: "highlight_snippet (ustr ''  Aaaaa. Bb cc  '') 8 = ustr ''Aaaaa.''"
  proof -
    have s: "strip (ustr ''  Aaaaa. Bb cc  '') = ustr ''Aaaaa. Bb cc''"
      by (simp add: strip_def ustr_def is_space_def)
    have l: "is_last_occurrence (ustr ''. '') (take (nat 8) (ustr ''Aaaaa. Bb cc'')) 5"
      by (simp add: is_last_occurrence_list occurs_at_def ustr_def)
    have n: "(8::int) < int (length (ustr ''Aaaaa. Bb cc''))" "(8::int) div 2 < int 5"
      by (simp_all add: ustr_def)
    have "highlight_snippet (ustr ''  Aaaaa. Bb cc  '') 8
            = take (Suc 5) (take (nat 8) (ustr ''Aaaaa. Bb cc''))"
      using highlight_snippet_cases [of 8 "ustr ''  Aaaaa. Bb cc  ''", OF z8] l n
      unfolding s Let_def by blast
    then show ?thesis by (simp add: ustr_def)
  qed
  have c: "highlight_snippet (ustr ''  Aa. Bb cc  '') 8 = ustr ''Aa. Bb...''"
  proof -
    have s: "strip (ustr ''  Aa. Bb cc  '') = ustr ''Aa. Bb cc''"
      by (simp add: strip_def ustr_def is_space_def)
    have l: "is_last_occurrence (ustr '' '') (take (nat 8) (ustr ''Aa. Bb cc'')) 6"
      by (simp add: is_last_occurrence_list occurs_at_def ustr_def)
    have m: "\<forall>p. occurs_at (ustr ''. '') (take (nat 8) (ustr ''Aa. Bb cc'')) p
                \<longrightarrow> int p \<le> 8 div 2"
      unfolding no_occurrence_list by (simp add: occurs_at_def ustr_def)
    have n: "(8::int) < int (length (ustr ''Aa. Bb cc''))"
      by (simp add: ustr_def)
    have "highlight_snippet (ustr ''  Aa. Bb cc  '') 8
            = take 6 (take (nat 8) (ustr ''Aa. Bb cc'')) @ ustr ''...''"
      using highlight_snippet_cases [of 8 "ustr ''  Aa. Bb cc  ''", OF z8] l m n
      unfolding s Let_def by blast
    then show ?thesis by (simp add: ustr_def)
  qed
  have d: "highlight_snippet (ustr ''abcdefghij'') 4 = ustr ''abcd...''"
  proof -
    have s: "strip (ustr ''abcdefghij'') = ustr ''abcdefghij''"
      by (simp add: strip_def ustr_def is_space_def)
    have l: "\<forall>q. \<not> occurs_at (ustr '' '') (take (nat 4) (ustr ''abcdefghij'')) q"
      using no_occurrence_list [of "ustr '' ''" "take (nat 4) (ustr ''abcdefghij'')" "\<lambda>_. False"]
      by (simp add: occurs_at_def ustr_def)
    have m: "\<forall>p. occurs_at (ustr ''. '') (take (nat 4) (ustr ''abcdefghij'')) p
                \<longrightarrow> int p \<le> 4 div 2"
      unfolding no_occurrence_list by (simp add: occurs_at_def ustr_def)
    have n: "(4::int) < int (length (ustr ''abcdefghij''))"
      by (simp add: ustr_def)
    have "highlight_snippet (ustr ''abcdefghij'') 4
            = take (nat 4) (ustr ''abcdefghij'') @ ustr ''...''"
      using highlight_snippet_cases [of 4 "ustr ''abcdefghij''", OF z4] l m n
      unfolding s Let_def by blast
    then show ?thesis by (simp add: ustr_def)
  qed
  show ?thesis using a b c d by blast
qed

text \<open>
  C7 as stated fails on a short content with a leading space: it is not returned
  unchanged.
\<close>

theorem highlight_snippet_strips_counterexample:
  "int (length (ustr '' a'')) \<le> 300 \<and> highlight_snippet (ustr '' a'') 300 \<noteq> ustr '' a''"
  by (simp add: highlight_snippet_def strip_def is_space_def ustr_def)

section \<open>Citations: results\<close>

lemmas citation_defs =
  extract_regulatory_citations_def legislation_patterns_def directive_patterns_def
  section_tail_def lit_def findall_def ustr_def is_space_def lower_def

text \<open>
  C6, as the code has it. On the text of the example (its last character is the
  ellipsis, code point 8230) \<open>extract_regulatory_citations\<close> returns three citations:
  the pattern \<open>Directive\s+0?\d+\<close> matches \<open>Directive 056\<close> by itself, besides the
  pattern with a section that matches \<open>Directive 056 s. 2.1\<close>.
\<close>

theorem citations_of_example:
  "extract_regulatory_citations
      (ustr ''Under REDA s. 34 and Directive 056 s. 2.1, the panel finds'' @ [8230])
     = {ustr ''REDA s. 34'', ustr ''Directive 056'', ustr ''Directive 056 s. 2.1''}"
  by (simp add: citation_defs)

text \<open>C6 as stated fails: the result is not the two-element set.\<close>

theorem citations_of_example_counterexample:
  "extract_regulatory_citations
      (ustr ''Under REDA s. 34 and Directive 056 s. 2.1, the panel finds'' @ [8230])
     \<noteq> {ustr ''REDA s. 34'', ustr ''Directive 056 s. 2.1''}"
proof -
  have "ustr ''Directive 056''
          \<in> extract_regulatory_citations
              (ustr ''Under REDA s. 34 and Directive 056 s. 2.1, the panel finds'' @ [8230])"
    by (simp add: citation_defs)
  moreover have "ustr ''Directive 056'' \<notin> {ustr ''REDA s. 34'', ustr ''Directive 056 s. 2.1''}"
    by (simp add: ustr_def)
  ultimately show ?thesis by metis
qed

section \<open>Chunking: joining and folding\<close>

lemma prefix_hd_join: "cc \<noteq> [] \<Longrightarrow> prefix (hd cc) (join sep cc)"
  by (induction sep cc rule: join.induct) simp_all

lemma suffix_last_join: "cc \<noteq> [] \<Longrightarrow> suffix (last cc) (join sep cc)"
proof (induction sep cc rule: join.induct)
  case (3 sep x y ys)
  then have "suffix (last (y # ys)) (join sep (y # ys))" by simp
  then have "suffix (last (y # ys)) (x @ sep @ join sep (y # ys))"
    by (simp add: suffix_appendI)
  then show ?case by simp
qed simp_all


lemma content_make_chunk [simp]: "content (make_chunk st c) = c"
  by (simp add: make_chunk_def Let_def)

section \<open>Chunking: concrete runs\<close>

lemmas chunk_run_defs =
  chunk_text_def page_step_def paragraph_step_def sentence_step_def flush_def
  make_chunk_def chunker_init_def paragraph_break_def sentence_break_def re_split_def
  extract_paragraph_numbers_def citation_defs strip_def word_count_def Let_def

text \<open>
  C4 fails on the code. One page of three paragraphs of three words each, a budget of
  four tokens, words counted as tokens: the second paragraph does not fit beside the
  first, so the first is flushed and carried over as overlap, and the pending chunk then
  holds two paragraphs. It is flushed as it is when the third paragraph arrives: a chunk
  of six tokens, none of whose units exceeds the budget. The last chunk is the same.
\<close>

theorem chunk_text_exceeds_budget:
  "map content (chunk_text word_count
      [\<lparr>Page.page_number = 1,
        page_text = ustr ''a b c'' @ [10, 10] @ ustr ''d e f'' @ [10, 10] @ ustr ''g h i''\<rparr>] 4 1)
     = [ustr ''a b c'',
        ustr ''a b c'' @ [10, 10] @ ustr ''d e f'',
        ustr ''d e f'' @ [10, 10] @ ustr ''g h i'']
   \<and> word_count (ustr ''a b c'' @ [10, 10] @ ustr ''d e f'') = 6
   \<and> word_count (ustr ''a b c'') = 3
   \<and> word_count (ustr ''d e f'') = 3"
  by (simp add: chunk_run_defs)


section \<open>Chunking: overlap\<close>

lemma overlap_chain_Nil [simp]: "overlap_chain U []"
  by (simp add: overlap_chain_def)









section \<open>Chunking: reconstruction\<close>

subsection \<open>Words\<close>

lemma words_Nil [simp]: "words [] = []"
  by (simp add: words_def)

lemma words_space_Cons: "is_space c \<Longrightarrow> words (c # cs) = words cs"
  by (simp add: words_def)

lemma split_words_space:
  "is_space c \<Longrightarrow> split_words w (a @ c # b) = split_words w a @ words b"
  by (induction a arbitrary: w) (simp_all add: words_def)

lemma words_space: "is_space c \<Longrightarrow> words (a @ c # b) = words a @ words b"
  by (simp add: words_def split_words_space)

lemma words_spaces_front: "list_all is_space m \<Longrightarrow> words (m @ s) = words s"
  by (induction m) (simp_all add: words_space_Cons)

lemma words_spaces_between:
  "list_all is_space m \<Longrightarrow> m \<noteq> [] \<Longrightarrow> words (a @ m @ b) = words a @ words b"
proof -
  assume m: "list_all is_space m" "m \<noteq> []"
  then obtain c m' where c: "m = c # m'" "is_space c" "list_all is_space m'"
    by (cases m) auto
  have "words (a @ c # (m' @ b)) = words a @ words (m' @ b)"
    using c(2) by (rule words_space)
  then show ?thesis
    using c words_spaces_front [of m' b] by simp
qed

lemma words_spaces_back: "list_all is_space m \<Longrightarrow> words (a @ m) = words a"
proof (cases "m = []")
  case True
  then show ?thesis by simp
next
  case False
  assume "list_all is_space m"
  then have "words (a @ m @ []) = words a @ words []"
    using False by (rule words_spaces_between)
  then show ?thesis by simp
qed

lemma words_dropWhile: "words (dropWhile is_space s) = words s"
  by (induction s) (simp_all add: words_space_Cons)

lemma words_strip: "words (strip s) = words s"
proof -
  have "list_all is_space (rev (takeWhile is_space (rev (dropWhile is_space s))))"
    by (simp add: list_all_iff) (metis set_takeWhileD)
  then have "words (strip s @ rev (takeWhile is_space (rev (dropWhile is_space s))))
      = words (strip s)"
    by (rule words_spaces_back)
  then show ?thesis
    using strip_prefix [of s] words_dropWhile [of s] by simp
qed

lemma words_join:
  "list_all is_space sep \<Longrightarrow> sep \<noteq> [] \<Longrightarrow> words (join sep xs) = concat (map words xs)"
  by (induction sep xs rule: join.induct) (simp_all add: words_spaces_between)

lemma is_space_newline [simp]: "is_space 10"
  by (simp add: is_space_def)

lemma separators_are_spaces [simp]:
  "list_all is_space [10, 10]" "list_all is_space (ustr '' '')" "ustr '' '' \<noteq> []"
  by (simp_all add: is_space_def ustr_def)

subsection \<open>Splitting keeps the words\<close>

lemma ws_atom_matches: "ws_atom a \<Longrightarrow> atom_matches ic a c \<Longrightarrow> is_space c"
proof (induction a)
  case (Chr k)
  then show ?case
    by (cases ic) (auto simp add: lower_def is_space_def split: if_splits)
qed auto

lemma ws_cons:
  assumes "ws_atom a" and "atom_matches ic a c"
    and "\<exists>m. cs = m @ rest \<and> list_all is_space m"
  shows "\<exists>m. c # cs = m @ rest \<and> list_all is_space m"
proof -
  from assms(3) obtain m where m: "cs = m @ rest" "list_all is_space m"
    by blast
  have "is_space c"
    using assms(1,2) by (rule ws_atom_matches)
  then have "c # cs = (c # m) @ rest \<and> list_all is_space (c # m)"
    using m by simp
  then show ?thesis by blast
qed

lemma match_here_ws:
  "list_all ws_item r \<Longrightarrow> match_here ic r prev s = Some rest \<Longrightarrow>
     \<exists>m. s = m @ rest \<and> list_all is_space m"
proof (induction ic r prev s arbitrary: rest rule: match_here.induct)
  case (1 ic prev s)
  then show ?case by simp
next
  case (2 ic a r prev)
  then show ?case by simp
next
  case (3 ic a r prev c cs)
  from "3.prems" have m: "atom_matches ic a c"
    and r: "match_here ic r (Some c) cs = Some rest"
    by (simp_all split: if_splits)
  have "\<exists>m. cs = m @ rest \<and> list_all is_space m"
    using "3.IH" [OF m _ r] "3.prems"(1) by simp
  then show ?case
    using "3.prems"(1) m by (intro ws_cons [of a]) simp_all
next
  case (4 ic a r prev)
  then show ?case by simp
next
  case (5 ic a r prev c cs)
  show ?case
  proof (cases "atom_matches ic a c")
    case True
    show ?thesis
    proof (cases "match_here ic r (Some c) cs")
      case None
      then have "match_here ic r prev (c # cs) = Some rest"
        using "5.prems"(2) True by simp
      then show ?thesis
        using "5.IH"(2) [OF True None] "5.prems"(1) by simp
    next
      case (Some rest')
      then have eq: "rest' = rest" using "5.prems"(2) True by simp
      have "\<exists>m. cs = m @ rest \<and> list_all is_space m"
        using "5.IH"(1) [OF True] "5.prems"(1) Some eq by simp
      then show ?thesis
        using "5.prems"(1) True by (intro ws_cons [of a]) simp_all
    qed
  next
    case False
    then have "match_here ic r prev (c # cs) = Some rest"
      using "5.prems"(2) by simp
    then show ?thesis
      using "5.IH"(3) [OF False] "5.prems"(1) by simp
  qed
next
  case (6 ic a r prev)
  then show ?case by simp
next
  case (7 ic a r prev c cs)
  show ?case
  proof (cases "atom_matches ic a c")
    case True
    show ?thesis
    proof (cases "match_here ic (Star a # r) (Some c) cs")
      case None
      then have "match_here ic r prev (c # cs) = Some rest"
        using "7.prems"(2) True by simp
      then show ?thesis
        using "7.IH"(2) [OF True None] "7.prems"(1) by simp
    next
      case (Some rest')
      then have eq: "rest' = rest" using "7.prems"(2) True by simp
      have "\<exists>m. cs = m @ rest \<and> list_all is_space m"
        using "7.IH"(1) [OF True] "7.prems"(1) Some eq by simp
      then show ?thesis
        using "7.prems"(1) True by (intro ws_cons [of a]) simp_all
    qed
  next
    case False
    then have "match_here ic r prev (c # cs) = Some rest"
      using "7.prems"(2) by simp
    then show ?thesis
      using "7.IH"(3) [OF False] "7.prems"(1) by simp
  qed
next
  case (8 ic a r prev)
  then show ?case by simp
next
  case (9 ic a r prev c cs)
  from "9.prems" have m: "atom_matches ic a c"
    and r: "match_here ic (Star a # r) (Some c) cs = Some rest"
    by (simp_all split: if_splits)
  have "\<exists>m. cs = m @ rest \<and> list_all is_space m"
    using "9.IH" [OF m _ r] "9.prems"(1) by simp
  then show ?case
    using "9.prems"(1) m by (intro ws_cons [of a]) simp_all
next
  case (10 ic a r prev s)
  then show ?case by (auto split: option.splits if_splits)
qed

lemma split_from_words:
  "list_all ws_item r \<Longrightarrow> (0 < k \<Longrightarrow> cur = []) \<Longrightarrow> k \<le> length s \<Longrightarrow>
     list_all is_space (take k s) \<Longrightarrow>
     concat (map words (split_from r prev s k cur)) = words (cur @ s)"
proof (induction r prev s k cur rule: split_from.induct)
  case (1 r prev k cur)
  then show ?case by simp
next
  case (2 r prev c cs k cur)
  have sp: "is_space c" using "2.prems"(4) by simp
  have cur: "cur = []" using "2.prems"(2) by simp
  have "concat (map words (split_from r (Some c) cs k cur)) = words (cur @ cs)"
    using "2.IH" "2.prems" cur by simp
  then show ?case
    using sp cur by (simp add: words_space_Cons)
next
  case (3 r prev c cs cur)
  note ws = "3.prems"(1)
  show ?case
  proof (cases "match_here False r prev (c # cs)")
    case None
    then show ?thesis
      using "3.IH"(1) [OF None] ws by simp
  next
    case (Some rest)
    define n where "n = length (c # cs) - length rest"
    show ?thesis
    proof (cases "n = 0")
      case True
      then show ?thesis
        using "3.IH"(2) [OF Some n_def True] Some ws by (simp add: n_def)
    next
      case False
      obtain m where m: "c # cs = m @ rest" "list_all is_space m"
        using match_here_ws [OF ws Some] by blast
      have "length (c # cs) = length m + length rest"
        using m(1) by (metis length_append)
      then have len: "n = length m"
        by (simp add: n_def)
      then obtain m' where m': "m = c # m'"
        using False m(1) by (cases m) auto
      have sp: "is_space c" and sp': "list_all is_space m'"
        using m(2) m' by simp_all
      have cs: "cs = m' @ rest"
        using m(1) m' by simp
      have "n - 1 \<le> length cs" and "list_all is_space (take (n - 1) cs)"
        using len m' cs sp' by simp_all
      then have ih: "concat (map words (split_from r (Some c) cs (n - 1) [])) = words cs"
        using "3.IH"(3) [OF Some n_def False] ws by simp
      have step: "split_from r prev (c # cs) 0 cur = cur # split_from r (Some c) cs (n - 1) []"
        unfolding n_def using Some False [unfolded n_def] by (simp add: Let_def)
      show ?thesis
        unfolding step using ih sp by (simp add: words_space)
    qed
  qed
qed

lemma re_split_words:
  "list_all ws_item r \<Longrightarrow> concat (map words (re_split r s)) = words s"
  using split_from_words [of r 0 "[]" s None] by (simp add: re_split_def)

lemma paragraph_break_words:
  "concat (map words (re_split paragraph_break s)) = words s"
  by (rule re_split_words) (simp add: paragraph_break_def is_space_def)

lemma sentence_break_words:
  "concat (map words (re_split sentence_break s)) = words s"
  by (rule re_split_words) (simp add: sentence_break_def)

subsection \<open>The invariant of the loops\<close>

lemma suffix_join_drop: "k < length xs \<Longrightarrow> suffix (join sep (drop k xs)) (join sep xs)"
proof (induction sep xs arbitrary: k rule: join.induct)
  case (3 sep x y ys)
  show ?case
  proof (cases k)
    case 0
    then show ?thesis by simp
  next
    case (Suc j)
    then have "suffix (join sep (drop j (y # ys))) (join sep (y # ys))"
      using 3 by simp
    then have "suffix (join sep (drop j (y # ys))) (x @ sep @ join sep (y # ys))"
      by (simp add: suffix_appendI)
    then show ?thesis using Suc by simp
  qed
qed simp_all

lemma words_drop_join_hd:
  "list_all is_space sep \<Longrightarrow> sep \<noteq> [] \<Longrightarrow>
     words (drop (length f) (join sep (f # new))) = concat (map words new)"
  by (cases new) (simp_all add: words_join words_spaces_front)

lemma remainders_snoc:
  "length os = length cs \<Longrightarrow>
     remainders (os @ [ov]) (cs @ [c]) = remainders os cs @ [drop (length ov) c]"
  by (simp add: remainders_def)

lemma recon_done_Nil: "recon_done [] []"
  unfolding recon_done_def by (rule exI [of _ "[]"]) (simp add: remainders_def)

lemma recon_done_snoc:
  assumes "recon_done cs d"
    and pre: "prefix ov c"
    and suf: "cs \<noteq> [] \<Longrightarrow> suffix ov (last cs)"
    and first: "cs = [] \<Longrightarrow> ov = []"
  shows "recon_done (cs @ [c]) (d @ words (drop (length ov) c))"
proof -
  from assms(1) obtain os where os:
    "list_all2 prefix os cs" "list_all2 suffix (tl os) (butlast cs)"
    "hd (os @ [[]]) = []" "concat (map words (remainders os cs)) = d"
    unfolding recon_done_def by blast
  have len: "length os = length cs"
    using os(1) by (rule list_all2_lengthD)
  have a: "list_all2 prefix (os @ [ov]) (cs @ [c])"
    using os(1) pre by (simp add: list_all2_appendI)
  have b: "list_all2 suffix (tl (os @ [ov])) (butlast (cs @ [c]))"
  proof (cases "cs = []")
    case True
    then show ?thesis using len by simp
  next
    case False
    then have ne: "os \<noteq> []" using len by auto
    have "list_all2 suffix (tl os @ [ov]) (butlast cs @ [last cs])"
      using os(2) suf [OF False] by (simp add: list_all2_appendI)
    then show ?thesis using False ne by simp
  qed
  have c: "hd ((os @ [ov]) @ [[]]) = []"
  proof (cases "cs = []")
    case True
    then show ?thesis using len first by simp
  next
    case False
    then have "os \<noteq> []" using len by auto
    then show ?thesis using os(3) by simp
  qed
  have d: "concat (map words (remainders (os @ [ov]) (cs @ [c]))) = d @ words (drop (length ov) c)"
    using os(4) len by (simp add: remainders_snoc)
  show ?thesis
    unfolding recon_done_def using a b c d by blast
qed

lemma chunks_flush:
  "chunks (flush sep st) = chunks st @ [make_chunk st (join sep (current_chunk st))]"
  by (simp add: flush_def)

lemma chunk_id_make_chunk [simp]: "chunk_id (make_chunk st c) = next_chunk_id st"
  by (simp add: make_chunk_def Let_def)

lemma recon_flush:
  assumes inv: "recon_inv st consumed" and sep: "list_all is_space sep" "sep \<noteq> []"
  shows "recon_done (map content (chunks st) @ [join sep (current_chunk st)]) consumed"
proof -
  from inv obtain seed new flushed where s:
    "current_chunk st = seed @ new"
    "seed = [] \<or> (chunks st \<noteq> [] \<and> length seed = 1
        \<and> suffix (hd seed) (content (last (chunks st))))"
    "recon_done (map content (chunks st)) flushed"
    "flushed @ concat (map words new) = consumed"
    unfolding recon_inv_def by blast
  show ?thesis
  proof (cases "seed = []")
    case True
    have "recon_done (map content (chunks st) @ [join sep new])
            (flushed @ words (drop (length ([]::ustr)) (join sep new)))"
      using s(3) by (rule recon_done_snoc) simp_all
    then show ?thesis
      using True s(1,4) sep by (simp add: words_join)
  next
    case False
    then obtain f where f: "seed = [f]"
      using s(2) by (cases seed) auto
    have ne: "chunks st \<noteq> []" and suf: "suffix f (content (last (chunks st)))"
      using s(2) False f by auto
    have "recon_done (map content (chunks st) @ [join sep (f # new)])
            (flushed @ words (drop (length f) (join sep (f # new))))"
    proof (rule recon_done_snoc [OF s(3)])
      show "prefix f (join sep (f # new))"
        using prefix_hd_join [of "f # new" sep] by simp
      show "suffix f (last (map content (chunks st)))"
        using suf ne by (simp add: last_map)
      show "f = []" if "map content (chunks st) = []"
        using that ne by simp
    qed
    then show ?thesis
      using f s(1,4) sep by (simp add: words_drop_join_hd)
  qed
qed

lemma recon_inv_after_flush:
  assumes inv: "recon_inv st consumed" and sep: "list_all is_space sep" "sep \<noteq> []"
    and ch: "chunks st' = chunks (flush sep st)"
    and ni: "next_chunk_id st' = next_chunk_id (flush sep st)"
    and cc: "current_chunk st' = seed' @ new'"
    and seed: "seed' = [] \<or> (length seed' = 1 \<and> suffix (hd seed') (join sep (current_chunk st)))"
  shows "recon_inv st' (consumed @ concat (map words new'))"
proof -
  have dn: "recon_done (map content (chunks st')) consumed"
    using recon_flush [OF inv sep] ch by (simp add: chunks_flush)
  have ids: "next_chunk_id st = length (chunks st)"
    "map chunk_id (chunks st) = [0..<length (chunks st)]"
    using inv unfolding recon_inv_def by blast+
  have ids': "next_chunk_id st' = length (chunks st')"
    "map chunk_id (chunks st') = [0..<length (chunks st')]"
    using ids ch ni by (simp_all add: chunks_flush flush_def)
  have last: "content (last (chunks st')) = join sep (current_chunk st)" and ne: "chunks st' \<noteq> []"
    using ch by (simp_all add: chunks_flush)
  have "seed' = [] \<or> (chunks st' \<noteq> [] \<and> length seed' = 1
      \<and> suffix (hd seed') (content (last (chunks st'))))"
    using seed last ne by auto
  then show ?thesis
    unfolding recon_inv_def using cc dn ids' by blast
qed

lemma recon_inv_append:
  assumes inv: "recon_inv st consumed"
    and ch: "chunks st' = chunks st"
    and ni: "next_chunk_id st' = next_chunk_id st"
    and cc: "current_chunk st' = current_chunk st @ us"
  shows "recon_inv st' (consumed @ concat (map words us))"
proof -
  from inv obtain seed new flushed where s:
    "current_chunk st = seed @ new"
    "seed = [] \<or> (chunks st \<noteq> [] \<and> length seed = 1
        \<and> suffix (hd seed) (content (last (chunks st))))"
    "recon_done (map content (chunks st)) flushed"
    "flushed @ concat (map words new) = consumed"
    "next_chunk_id st = length (chunks st)"
    "map chunk_id (chunks st) = [0..<length (chunks st)]"
    unfolding recon_inv_def by blast
  have "current_chunk st' = seed @ (new @ us)"
    using cc s(1) by simp
  moreover have "flushed @ concat (map words (new @ us)) = consumed @ concat (map words us)"
    using s(4) by simp
  ultimately show ?thesis
    unfolding recon_inv_def using s(2,3,5,6) ch ni by metis
qed

lemma foldl_accumulate:
  "R s c \<Longrightarrow> (\<And>t d x. R t d \<Longrightarrow> R (f t x) (d @ g x)) \<Longrightarrow>
     R (foldl f s xs) (c @ concat (map g xs))"
proof (induction xs arbitrary: s c)
  case Nil
  then show ?case by simp
next
  case (Cons x xs)
  have "R (f s x) (c @ g x)"
    using Cons.prems by blast
  then have "R (foldl f (f s x) xs) ((c @ g x) @ concat (map g xs))"
    using Cons.prems(2) by (rule Cons.IH)
  then show ?case by simp
qed

lemma sentence_step_recon:
  assumes inv: "recon_inv st consumed"
  shows "recon_inv (sentence_step tok chunk_size page_num st sent) (consumed @ words sent)"
proof (cases "int (current_tokens st + tok sent) > chunk_size \<and> current_chunk st \<noteq> []")
  case True
  define overlap_text where "overlap_text =
    (if length (current_chunk st) \<ge> 2
     then join (ustr '' '') (drop (length (current_chunk st) - 2) (current_chunk st))
     else [])"
  define seed' where "seed' = (if overlap_text \<noteq> [] then [overlap_text] else [])"
  let ?st' = "sentence_step tok chunk_size page_num st sent"
  have ch: "chunks ?st' = chunks (flush (ustr '' '') st)"
    and ni: "next_chunk_id ?st' = next_chunk_id (flush (ustr '' '') st)"
    and cc: "current_chunk ?st' = seed' @ [sent]"
    using True by (simp_all add: sentence_step_def Let_def seed'_def overlap_text_def)
  have seed: "seed' = [] \<or> (length seed' = 1
      \<and> suffix (hd seed') (join (ustr '' '') (current_chunk st)))"
  proof (cases "overlap_text = []")
    case True
    then show ?thesis by (simp add: seed'_def)
  next
    case False
    then have two: "length (current_chunk st) \<ge> 2"
      by (simp add: overlap_text_def split: if_splits)
    then have "length (current_chunk st) - 2 < length (current_chunk st)"
      by simp
    then have "suffix (join (ustr '' '')
        (drop (length (current_chunk st) - 2) (current_chunk st)))
        (join (ustr '' '') (current_chunk st))"
      by (rule suffix_join_drop)
    then show ?thesis
      using False two by (simp add: seed'_def overlap_text_def)
  qed
  have "recon_inv ?st' (consumed @ concat (map words [sent]))"
    by (rule recon_inv_after_flush [OF inv _ _ ch ni cc seed]) simp_all
  then show ?thesis by simp
next
  case False
  let ?st' = "sentence_step tok chunk_size page_num st sent"
  have "chunks ?st' = chunks st" and "next_chunk_id ?st' = next_chunk_id st"
    and "current_chunk ?st' = current_chunk st @ [sent]"
    using False by (auto simp add: sentence_step_def Let_def)
  with inv have "recon_inv ?st' (consumed @ concat (map words [sent]))"
    by (rule recon_inv_append)
  then show ?thesis by simp
qed

lemma paragraph_step_recon:
  assumes inv: "recon_inv st consumed"
  shows "recon_inv (paragraph_step tok chunk_size page_num st para0) (consumed @ words para0)"
proof (cases "strip para0 = []")
  case True
  then have "words para0 = []"
    using words_strip [of para0] by simp
  then show ?thesis
    using inv True by (simp add: paragraph_step_def)
next
  case False
  define para where "para = strip para0"
  have sq: "words para = words para0"
    by (simp add: para_def words_strip)
  show ?thesis
  proof (cases "int (tok para) > chunk_size")
    case True
    define st1 where "st1 =
      (if current_chunk st \<noteq> []
       then (flush [10, 10] st)\<lparr>current_chunk := [], current_tokens := 0\<rparr>
       else st)"
    have st1: "recon_inv st1 consumed"
    proof (cases "current_chunk st \<noteq> []")
      case True
      have "recon_inv st1 (consumed @ concat (map words []))"
        using inv
      proof (rule recon_inv_after_flush [where sep = "[10, 10]" and seed' = "[]"])
        show "current_chunk st1 = [] @ []"
          using True by (simp add: st1_def)
      qed (simp_all add: st1_def True)
      then show ?thesis by simp
    next
      case False
      then show ?thesis using inv by (simp add: st1_def)
    qed
    have "recon_inv (foldl (sentence_step tok chunk_size page_num) st1
            (re_split sentence_break para))
          (consumed @ concat (map words (re_split sentence_break para)))"
      using st1 by (rule foldl_accumulate) (rule sentence_step_recon)
    then have "recon_inv (foldl (sentence_step tok chunk_size page_num) st1
            (re_split sentence_break para)) (consumed @ words para0)"
      by (simp add: sentence_break_words sq)
    then show ?thesis
      using True False by (simp add: paragraph_step_def Let_def para_def st1_def)
  next
    case small: False
    show ?thesis
    proof (cases "int (current_tokens st + tok para) > chunk_size")
      case True
      define seed' where "seed' =
        (if current_chunk st \<noteq> [] then [last (current_chunk st)] else [])"
      let ?st' = "paragraph_step tok chunk_size page_num st para0"
      have ch: "chunks ?st' = chunks (flush [10, 10] st)"
        and ni: "next_chunk_id ?st' = next_chunk_id (flush [10, 10] st)"
        and cc: "current_chunk ?st' = seed' @ [para]"
        using True small False
        by (simp_all add: paragraph_step_def Let_def para_def seed'_def)
      have seed: "seed' = [] \<or> (length seed' = 1
          \<and> suffix (hd seed') (join [10, 10] (current_chunk st)))"
        using suffix_last_join [of "current_chunk st" "[10, 10]"] by (simp add: seed'_def)
      have "recon_inv ?st' (consumed @ concat (map words [para]))"
        by (rule recon_inv_after_flush [OF inv _ _ ch ni cc seed]) simp_all
      then show ?thesis by (simp add: sq)
    next
      case no_flush: False
      let ?st' = "paragraph_step tok chunk_size page_num st para0"
      have "chunks ?st' = chunks st" and "next_chunk_id ?st' = next_chunk_id st"
        and "current_chunk ?st' = current_chunk st @ [para]"
        using no_flush small False
        by (simp_all add: paragraph_step_def Let_def para_def)
      with inv have "recon_inv ?st' (consumed @ concat (map words [para]))"
        by (rule recon_inv_append)
      then show ?thesis by (simp add: sq)
    qed
  qed
qed

lemma page_step_recon:
  assumes "recon_inv st consumed"
  shows "recon_inv (page_step tok chunk_size st page) (consumed @ words (page_text page))"
proof -
  have "recon_inv
      (foldl (paragraph_step tok chunk_size (Page.page_number page)) st
         (re_split paragraph_break (page_text page)))
      (consumed @ concat (map words (re_split paragraph_break (page_text page))))"
    using assms by (rule foldl_accumulate) (rule paragraph_step_recon)
  then show ?thesis
    by (simp add: page_step_def Let_def paragraph_break_words)
qed

lemma recon_inv_init: "recon_inv chunker_init []"
  unfolding recon_inv_def
  by (rule exI [of _ "[]"], rule exI [of _ "[]"], rule exI [of _ "[]"])
    (simp add: chunker_init_def recon_done_Nil)

lemma chunk_text_recon:
  "recon_done (map content (chunk_text tok pages chunk_size overlap))
     (concat (map (\<lambda>page. words (page_text page)) pages))
   \<and> map chunk_id (chunk_text tok pages chunk_size overlap)
       = [0..<length (chunk_text tok pages chunk_size overlap)]"
proof -
  let ?st = "foldl (page_step tok chunk_size) chunker_init pages"
  let ?src = "concat (map (\<lambda>page. words (page_text page)) pages)"
  have "recon_inv ?st ([] @ concat (map (\<lambda>page. words (page_text page)) pages))"
    using recon_inv_init by (rule foldl_accumulate) (rule page_step_recon)
  then have inv: "recon_inv ?st ?src"
    by simp
  show ?thesis
  proof (cases "current_chunk ?st = []")
    case True
    from inv obtain seed new flushed where s:
      "current_chunk ?st = seed @ new"
      "recon_done (map content (chunks ?st)) flushed"
      "flushed @ concat (map words new) = ?src"
      "map chunk_id (chunks ?st) = [0..<length (chunks ?st)]"
      unfolding recon_inv_def by blast
    have "new = []" using s(1) True by simp
    then have "recon_done (map content (chunks ?st)) ?src"
      using s(2,3) by simp
    then show ?thesis
      using True s(4) by (simp add: chunk_text_def)
  next
    case False
    have r: "recon_done (map content (chunks ?st) @ [join [10, 10] (current_chunk ?st)]) ?src"
      using inv by (rule recon_flush) simp_all
    have ids: "next_chunk_id ?st = length (chunks ?st)"
      "map chunk_id (chunks ?st) = [0..<length (chunks ?st)]"
      using inv unfolding recon_inv_def by blast+
    have res: "chunk_text tok pages chunk_size overlap
        = chunks ?st @ [make_chunk ?st (join [10, 10] (current_chunk ?st))]"
      using False by (simp add: chunk_text_def chunks_flush Let_def)
    show ?thesis
      unfolding res using r ids by simp
  qed
qed


text \<open>
  C9, as the code has it. A text is read up to whitespace as its sequence of
  whitespace-separated words. The chunks come in \<open>chunk_id\<close> order, numbered from 0.
  They have overlap fragments, each a beginning of its chunk's content and an ending of
  the content of the chunk before it, that of the first chunk empty, such that the words
  of the contents with these fragments removed, chunk after chunk, are the words of the
  pages, page after page: a boundary between chunks, as between pages, separates words.
\<close>

theorem chunk_text_reconstruction:
  "map chunk_id (chunk_text tok pages chunk_size overlap)
     = [0..<length (chunk_text tok pages chunk_size overlap)]
   \<and> (\<exists>overlaps.
        list_all2 prefix overlaps (map content (chunk_text tok pages chunk_size overlap))
        \<and> list_all2 suffix (tl overlaps)
             (butlast (map content (chunk_text tok pages chunk_size overlap)))
        \<and> hd (overlaps @ [[]]) = []
        \<and> concat (map words (map (\<lambda>(ov, c). drop (length ov) c)
               (zip overlaps (map content (chunk_text tok pages chunk_size overlap)))))
            = concat (map (\<lambda>page. words (page_text page)) pages))"
  using chunk_text_recon [of tok pages chunk_size overlap]
  unfolding recon_done_def remainders_def by blast

text \<open>
  C9 as stated fails: the plain concatenation of the contents joins the last word of a
  chunk to the first word of the next. One page with the single paragraph
  \<open>a b c. d e f.\<close> and a budget of four tokens gives the chunks \<open>a b c.\<close> and
  \<open>d e f.\<close>, with no overlap to remove; concatenated they read \<open>a b c.d e f.\<close>, five
  words against the six of the page.
\<close>

theorem chunk_text_concatenation_counterexample:
  "map content (chunk_text word_count
      [\<lparr>Page.page_number = 1, page_text = ustr ''a b c. d e f.''\<rparr>] 4 1)
     = [ustr ''a b c.'', ustr ''d e f.'']
   \<and> carried_fragments (ustr ''a b c.'') (ustr ''d e f.'') = []
   \<and> words (ustr ''a b c.'' @ ustr ''d e f.'')
       = [ustr ''a'', ustr ''b'', ustr ''c.d'', ustr ''e'', ustr ''f.'']
   \<and> words (ustr ''a b c. d e f.'')
       = [ustr ''a'', ustr ''b'', ustr ''c.'', ustr ''d'', ustr ''e'', ustr ''f.'']"
  by (simp add: chunk_run_defs carried_fragments_def suffix_def words_def)

end
